theory Spec2Isabelle
  imports Complex_Main
begin

section \<open>The Kalman filter engine of kalman.cpp\<close>

text \<open>
  A shallow embedding of \<^verbatim>\<open>src/wasm/cpp/kalman.cpp\<close>: the dense \<^verbatim>\<open>Matrix\<close> class, the
  \<^verbatim>\<open>KalmanFilter\<close> class and the handle registry behind \<^verbatim>\<open>kf_create\<close>, \<^verbatim>\<open>kf_update\<close> and
  \<^verbatim>\<open>kf_destroy\<close>.

  What the model idealises, and what it does not:
  \<^item> A C++ \<^verbatim>\<open>double\<close> is a \<^typ>\<open>real\<close>: arithmetic is exact, there is no rounding, no
    infinity and no NaN. The one place where the reals cannot follow the doubles is the
    division \<^verbatim>\<open>1.0 / innovation_covariance(i, i)\<close> with a zero divisor (an infinity or a
    NaN in C++): there the model stops with the fault \<open>DivisionByZero\<close>.
  \<^item> Shapes, loop counters and element indices are integers, and the matrix operations
    compute with them exactly. The one product that can leave the 32-bit range of the
    source's \<^verbatim>\<open>int\<close> is \<^verbatim>\<open>rows * cols\<close> of the square members that \<^verbatim>\<open>new KalmanFilter\<close>
    builds; \<open>new_KalmanFilter\<close> models it with wrap-around, and the construction fails
    where the product does not fit. Every matrix built afterwards has the shape of one of
    these members or fewer entries. An allocation whose size fits always succeeds. Member
    names lose the trailing underscore of the source (\<^verbatim>\<open>rows_\<close> is \<open>rows\<close>).
  \<^item> The handle counter \<^verbatim>\<open>g_next_handle\<close> is a 32-bit two's complement \<^verbatim>\<open>int\<close>, as on the
    WebAssembly target of the source: \<^verbatim>\<open>g_next_handle++\<close> wraps from \<open>2^31 - 1\<close> to \<open>- 2^31\<close>.
  \<^item> The pair \<^verbatim>\<open>(const double* measurements, int count)\<close> is one list, \<^verbatim>\<open>count\<close> being its
    length. A null pointer result is \<open>None\<close>; the buffer behind a non-null result is
    returned by value.
\<close>

subsection \<open>Matrix\<close>

record Matrix =
  rows :: int
  cols :: int
  data :: "real list"

text \<open>
  \<^verbatim>\<open>Matrix(int rows, int cols)\<close>: a zero-filled store of \<open>rows * cols\<close> entries, for a
  product that fits a 32-bit \<^verbatim>\<open>int\<close>. What the source does when it does not fit is part of
  \<open>new_KalmanFilter\<close>, the one place where the program chooses a shape.
\<close>

definition Matrix :: "int \<Rightarrow> int \<Rightarrow> Matrix" where
  "Matrix r c = \<lparr>rows = r, cols = c, data = replicate (nat (r * c)) 0\<rparr>"

text \<open>
  \<^verbatim>\<open>operator()(row, col)\<close>, reading and writing \<^verbatim>\<open>data_[row * cols_ + col]\<close>. The source
  checks no bounds; every access the code makes is inside the store as long as the
  store has \<open>rows * cols\<close> entries (\<open>wf_matrix\<close> below).
\<close>

definition elem :: "Matrix \<Rightarrow> nat \<Rightarrow> nat \<Rightarrow> real" where
  "elem M row col = data M ! (row * nat (cols M) + col)"

definition set_elem :: "Matrix \<Rightarrow> nat \<Rightarrow> nat \<Rightarrow> real \<Rightarrow> Matrix" where
  "set_elem M row col v = M\<lparr>data := (data M)[row * nat (cols M) + col := v]\<rparr>"

text \<open>\<^verbatim>\<open>operator*\<close>: the three nested loops, the innermost accumulating \<^verbatim>\<open>sum\<close> from 0.\<close>

definition operator_times :: "Matrix \<Rightarrow> Matrix \<Rightarrow> Matrix" where
  "operator_times A other =
     (if cols A \<noteq> rows other then Matrix 0 0
      else
        fold (\<lambda>i. fold (\<lambda>j result.
                set_elem result i j
                  (foldl (\<lambda>sum k. sum + elem A i k * elem other k j) 0 [0..<nat (cols A)]))
              [0..<nat (cols other)])
          [0..<nat (rows A)] (Matrix (rows A) (cols other)))"

text \<open>\<^verbatim>\<open>operator+\<close> and \<^verbatim>\<open>operator-\<close>.\<close>

definition operator_plus :: "Matrix \<Rightarrow> Matrix \<Rightarrow> Matrix" where
  "operator_plus A other =
     (if rows A \<noteq> rows other \<or> cols A \<noteq> cols other then Matrix 0 0
      else
        fold (\<lambda>i. fold (\<lambda>j result. set_elem result i j (elem A i j + elem other i j))
              [0..<nat (cols A)])
          [0..<nat (rows A)] (Matrix (rows A) (cols A)))"

definition operator_minus :: "Matrix \<Rightarrow> Matrix \<Rightarrow> Matrix" where
  "operator_minus A other =
     (if rows A \<noteq> rows other \<or> cols A \<noteq> cols other then Matrix 0 0
      else
        fold (\<lambda>i. fold (\<lambda>j result. set_elem result i j (elem A i j - elem other i j))
              [0..<nat (cols A)])
          [0..<nat (rows A)] (Matrix (rows A) (cols A)))"

text \<open>\<^verbatim>\<open>transpose()\<close> writes \<open>result(j, i)\<close>; \<^verbatim>\<open>identity(size)\<close> writes the diagonal.\<close>

definition transpose_m :: "Matrix \<Rightarrow> Matrix" where
  "transpose_m A =
     fold (\<lambda>i. fold (\<lambda>j result. set_elem result j i (elem A i j)) [0..<nat (cols A)])
       [0..<nat (rows A)] (Matrix (cols A) (rows A))"

definition identity :: "int \<Rightarrow> Matrix" where
  "identity sz = fold (\<lambda>i result. set_elem result i i 1) [0..<nat sz] (Matrix sz sz)"

subsection \<open>KalmanFilter\<close>

record KalmanFilter =
  dimensions :: int
  state :: Matrix
  process_noise :: Matrix
  measurement_noise :: Matrix
  state_covariance :: Matrix
  transition_matrix :: Matrix
  measurement_matrix :: Matrix
  estimated_state :: "real list"

text \<open>
  The constructor: the member initialisers, then the body, which replaces \<open>F\<close> and \<open>H\<close>
  by identities and writes the diagonals of \<open>Q\<close>, \<open>R\<close> and \<open>P\<close>. This is the filter that the
  constructor builds when \<open>dims * dims\<close> fits a 32-bit \<^verbatim>\<open>int\<close>; \<open>new_KalmanFilter\<close> below
  says what happens when it does not.
\<close>

definition KalmanFilter :: "int \<Rightarrow> real \<Rightarrow> real \<Rightarrow> KalmanFilter" where
  "KalmanFilter dims p_noise m_noise =
     \<lparr>dimensions = dims,
      state = Matrix dims 1,
      process_noise =
        fold (\<lambda>i Q. set_elem Q i i p_noise) [0..<nat dims] (Matrix dims dims),
      measurement_noise =
        fold (\<lambda>i R. set_elem R i i m_noise) [0..<nat dims] (Matrix dims dims),
      state_covariance =
        fold (\<lambda>i P. set_elem P i i 1) [0..<nat dims] (Matrix dims dims),
      transition_matrix = identity dims,
      measurement_matrix = identity dims,
      estimated_state = replicate (nat dims) 0\<rparr>"

text \<open>
  The locals of \<^verbatim>\<open>update\<close>, in the order of the source. \<open>measurement_vector\<close> is the
  local \<open>z\<close>.
\<close>

definition measurement_vector :: "int \<Rightarrow> real list \<Rightarrow> Matrix" where
  "measurement_vector dims measurements =
     fold (\<lambda>i z. set_elem z i 0 (measurements ! i)) [0..<nat dims] (Matrix dims 1)"

definition predicted_state :: "KalmanFilter \<Rightarrow> Matrix" where
  "predicted_state kf = operator_times (transition_matrix kf) (state kf)"

definition predicted_covariance :: "KalmanFilter \<Rightarrow> Matrix" where
  "predicted_covariance kf =
     operator_plus
       (operator_times (operator_times (transition_matrix kf) (state_covariance kf))
          (transpose_m (transition_matrix kf)))
       (process_noise kf)"

definition innovation_covariance :: "KalmanFilter \<Rightarrow> Matrix" where
  "innovation_covariance kf = operator_plus (predicted_covariance kf) (measurement_noise kf)"

text \<open>
  Where the model stops: a division by zero in \<^verbatim>\<open>update\<close>, whose quotient is no real
  number; the \<^verbatim>\<open>std::length_error\<close> that the \<^verbatim>\<open>std::vector\<close> constructor throws for a
  negative size; a write outside the store of a matrix.
\<close>

datatype fault = DivisionByZero | LengthError | OutOfBounds

text \<open>
  The loop \<^verbatim>\<open>inv_innovation_covariance(i, i) = 1.0 / innovation_covariance(i, i)\<close> over the
  indices still to visit. The source has no check before the division; the test for a
  zero divisor is the model's, and its outcome is the fault.
\<close>

fun inverse_loop :: "nat list \<Rightarrow> Matrix \<Rightarrow> Matrix \<Rightarrow> fault + Matrix" where
  "inverse_loop [] S result = Inr result"
| "inverse_loop (i # rest) S result =
     (if elem S i i = 0 then Inl DivisionByZero
      else inverse_loop rest S (set_elem result i i (1 / elem S i i)))"

definition inv_innovation_covariance :: "KalmanFilter \<Rightarrow> fault + Matrix" where
  "inv_innovation_covariance kf =
     inverse_loop [0..<nat (dimensions kf)] (innovation_covariance kf)
       (Matrix (dimensions kf) (dimensions kf))"

text \<open>
  \<^verbatim>\<open>update\<close>: the new filter and the result, \<open>None\<close> for \<^verbatim>\<open>nullptr\<close> and \<open>Some\<close> of the
  contents of the output buffer otherwise.
\<close>

definition update :: "KalmanFilter \<Rightarrow> real list \<Rightarrow> fault + (real list option \<times> KalmanFilter)" where
  "update kf measurements =
     (if int (length measurements) \<noteq> dimensions kf then Inr (None, kf)
      else
        case inv_innovation_covariance kf of
          Inl f \<Rightarrow> Inl f
        | Inr inv_S \<Rightarrow>
            let z = measurement_vector (dimensions kf) measurements;
                kalman_gain = operator_times (predicted_covariance kf) inv_S;
                innovation = operator_minus z (predicted_state kf);
                new_state =
                  operator_plus (predicted_state kf) (operator_times kalman_gain innovation);
                temp = operator_minus (identity (dimensions kf)) kalman_gain;
                new_covariance = operator_times temp (predicted_covariance kf);
                buffer =
                  fold (\<lambda>i e. e[i := elem new_state i 0]) [0..<nat (dimensions kf)]
                    (estimated_state kf)
            in Inr (Some buffer,
                    kf\<lparr>state := new_state, state_covariance := new_covariance,
                       estimated_state := buffer\<rparr>))"

subsection \<open>The registry\<close>

text \<open>
  \<^verbatim>\<open>g_filters\<close> maps a handle to a filter that the registry alone owns (each is a fresh
  \<^verbatim>\<open>new KalmanFilter\<close>), so the map holds the filters themselves.
\<close>

record Registry =
  g_filters :: "int \<rightharpoonup> KalmanFilter"
  g_next_handle :: int

definition initial_registry :: Registry where
  "initial_registry = \<lparr>g_filters = Map.empty, g_next_handle = 1\<rparr>"

text \<open>The value of a 32-bit \<^verbatim>\<open>int\<close> after an arithmetic step: two's complement wrap-around.\<close>

definition int32 :: "int \<Rightarrow> int" where
  "int32 x = (x + 2147483648) mod 4294967296 - 2147483648"

text \<open>
  \<^verbatim>\<open>new KalmanFilter(dimensions, process_noise, measurement_noise)\<close>. The members \<open>Q\<close>,
  \<open>R\<close>, \<open>P\<close>, \<open>F\<close> and \<open>H\<close> are built by \<^verbatim>\<open>Matrix(dimensions, dimensions)\<close>, whose store has
  \<^verbatim>\<open>rows * cols\<close> entries, a product of two 32-bit \<^verbatim>\<open>int\<close>s. When the product wraps to a
  negative value, the \<^verbatim>\<open>std::vector\<close> constructor throws \<^verbatim>\<open>std::length_error\<close>. When it
  wraps to a smaller value that is not negative, the stores are shorter than the shape,
  and a write \<^verbatim>\<open>result(i, i) = 1.0\<close> of \<^verbatim>\<open>Matrix::identity\<close> is outside them (lemma
  \<open>diagonal_write_outside\<close>; for \<open>dimensions = 65536\<close> the stores are empty). Otherwise
  the constructor builds \<open>KalmanFilter dims p_noise m_noise\<close>.
\<close>

definition new_KalmanFilter :: "int \<Rightarrow> real \<Rightarrow> real \<Rightarrow> fault + KalmanFilter" where
  "new_KalmanFilter dims p_noise m_noise =
     (if int32 (dims * dims) < 0 then Inl LengthError
      else if int32 (dims * dims) \<noteq> dims * dims then Inl OutOfBounds
      else Inr (KalmanFilter dims p_noise m_noise))"

definition kf_create ::
    "Registry \<Rightarrow> int \<Rightarrow> real \<Rightarrow> real \<Rightarrow> fault + (int \<times> Registry)" where
  "kf_create g dims p_noise m_noise =
     (if dims \<le> 0 then Inr (0, g)
      else
        case new_KalmanFilter dims p_noise m_noise of
          Inl f \<Rightarrow> Inl f
        | Inr kf \<Rightarrow>
            let handle = g_next_handle g
            in Inr (handle,
                    g\<lparr>g_next_handle := int32 (g_next_handle g + 1),
                      g_filters := (g_filters g)(handle \<mapsto> kf)\<rparr>))"

definition kf_update ::
    "Registry \<Rightarrow> int \<Rightarrow> real list \<Rightarrow> fault + (real list option \<times> Registry)" where
  "kf_update g handle measurements =
     (case g_filters g handle of
        None \<Rightarrow> Inr (None, g)
      | Some kf \<Rightarrow>
          (case update kf measurements of
             Inl f \<Rightarrow> Inl f
           | Inr (result, kf') \<Rightarrow>
               Inr (result, g\<lparr>g_filters := (g_filters g)(handle \<mapsto> kf')\<rparr>)))"

definition kf_destroy :: "Registry \<Rightarrow> int \<Rightarrow> Registry" where
  "kf_destroy g handle =
     (case g_filters g handle of
        None \<Rightarrow> g
      | Some kf \<Rightarrow> g\<lparr>g_filters := (g_filters g)(handle := None)\<rparr>)"


subsection \<open>Running sequences of calls\<close>

text \<open>
  Successive \<^verbatim>\<open>update\<close> calls on one filter: the results in order and the final filter.
  A fault ends the run.
\<close>

fun updates ::
    "KalmanFilter \<Rightarrow> real list list \<Rightarrow> fault + (real list option list \<times> KalmanFilter)" where
  "updates kf [] = Inr ([], kf)"
| "updates kf (z # zs) =
     (case update kf z of
        Inl f \<Rightarrow> Inl f
      | Inr (r, kf') \<Rightarrow>
          (case updates kf' zs of
             Inl f \<Rightarrow> Inl f
           | Inr (rs, kf'') \<Rightarrow> Inr (r # rs, kf'')))"

text \<open>
  Interleaved \<^verbatim>\<open>kf_create\<close> and \<^verbatim>\<open>kf_destroy\<close> calls on the registry, with the trace of
  what happened: the handle a successful create returned, a refused create, a create
  whose construction failed (which ends the run), the handle whose filter a destroy
  released, a destroy that found nothing.
\<close>

datatype call = Create int real real | Destroy int

datatype event = Created int | Refused | Crashed fault | Destroyed int | Absent int

fun run_calls :: "Registry \<Rightarrow> call list \<Rightarrow> event list \<times> Registry" where
  "run_calls g [] = ([], g)"
| "run_calls g (Create dims p_noise m_noise # cs) =
     (case kf_create g dims p_noise m_noise of
        Inl f \<Rightarrow> ([Crashed f], g)
      | Inr (handle, g') \<Rightarrow>
          (let (es, g'') = run_calls g' cs
           in ((if dims \<le> 0 then Refused else Created handle) # es, g'')))"
| "run_calls g (Destroy handle # cs) =
     (let (es, g') = run_calls (kf_destroy g handle) cs
      in ((if handle \<in> dom (g_filters g) then Destroyed handle else Absent handle) # es, g'))"

text \<open>The handles that the successful creates of a trace returned, in order.\<close>

fun created :: "event list \<Rightarrow> int list" where
  "created [] = []"
| "created (Created h # es) = h # created es"
| "created (e # es) = created es"

text \<open>How many creates of a list of calls succeed, up to the first one that fails.\<close>

fun successes :: "call list \<Rightarrow> nat" where
  "successes [] = 0"
| "successes (Create dims p_noise m_noise # cs) =
     (if dims \<le> 0 then successes cs
      else
        case new_KalmanFilter dims p_noise m_noise of
          Inl f \<Rightarrow> 0
        | Inr kf \<Rightarrow> Suc (successes cs))"
| "successes (Destroy handle # cs) = successes cs"

text \<open>
  A driver: \<open>k\<close> rounds, each creating a one-dimensional filter and destroying it at once,
  \<open>c\<close> being the handle that the first create returns.
\<close>

fun churn :: "int \<Rightarrow> nat \<Rightarrow> call list" where
  "churn c 0 = []"
| "churn c (Suc k) = Create 1 0 0 # Destroy c # churn (int32 (c + 1)) k"

subsection \<open>Invariants and the recursion of the specification\<close>

text \<open>The store of a matrix has \<open>rows * cols\<close> entries.\<close>

definition wf_matrix :: "Matrix \<Rightarrow> bool" where
  "wf_matrix M \<longleftrightarrow>
     0 \<le> rows M \<and> 0 \<le> cols M \<and> length (data M) = nat (rows M) * nat (cols M)"

text \<open>
  What the constructor establishes and \<^verbatim>\<open>update\<close> keeps: the shapes of the members, and
  \<open>F\<close> and \<open>H\<close> the identity.
\<close>

definition wf_filter :: "KalmanFilter \<Rightarrow> bool" where
  "wf_filter kf \<longleftrightarrow>
     0 \<le> dimensions kf \<and>
     wf_matrix (state kf) \<and> rows (state kf) = dimensions kf \<and> cols (state kf) = 1 \<and>
     wf_matrix (process_noise kf) \<and>
     rows (process_noise kf) = dimensions kf \<and> cols (process_noise kf) = dimensions kf \<and>
     wf_matrix (measurement_noise kf) \<and>
     rows (measurement_noise kf) = dimensions kf \<and>
     cols (measurement_noise kf) = dimensions kf \<and>
     wf_matrix (state_covariance kf) \<and>
     rows (state_covariance kf) = dimensions kf \<and>
     cols (state_covariance kf) = dimensions kf \<and>
     transition_matrix kf = identity (dimensions kf) \<and>
     measurement_matrix kf = identity (dimensions kf) \<and>
     length (estimated_state kf) = nat (dimensions kf)"

text \<open>A matrix is diagonal: every entry off the diagonal is exactly zero.\<close>

definition diagonal :: "Matrix \<Rightarrow> bool" where
  "diagonal M \<longleftrightarrow> (\<forall>i<nat (rows M). \<forall>j<nat (cols M). i \<noteq> j \<longrightarrow> elem M i j = 0)"

text \<open>The row-major matrix of a given shape with given entries.\<close>

definition matrix_of :: "nat \<Rightarrow> nat \<Rightarrow> (nat \<Rightarrow> nat \<Rightarrow> real) \<Rightarrow> Matrix" where
  "matrix_of r c f =
     \<lparr>rows = int r, cols = int c, data = map (\<lambda>p. f (p div c) (p mod c)) [0..<r * c]\<rparr>"

text \<open>
  The recursion as the specification words it, on entries: \<open>predicted_x = x\<close>,
  \<open>predicted_P = P + Q\<close>, \<open>S = predicted_P + R\<close>, \<open>S\<close> inverted on its diagonal only,
  \<open>K = predicted_P \<cdot> S\<^sup>-\<^sup>1\<close>, \<open>y = z - predicted_x\<close>, \<open>x = predicted_x + K \<cdot> y\<close> and
  \<open>P = (I - K) \<cdot> predicted_P\<close>. It has no value when a diagonal entry of \<open>S\<close> is zero.
\<close>

definition spec_product ::
    "nat \<Rightarrow> (nat \<Rightarrow> nat \<Rightarrow> real) \<Rightarrow> (nat \<Rightarrow> nat \<Rightarrow> real) \<Rightarrow> nat \<Rightarrow> nat \<Rightarrow> real" where
  "spec_product n A B = (\<lambda>i j. \<Sum>k<n. A i k * B k j)"

definition spec_update ::
    "nat \<Rightarrow> (nat \<Rightarrow> real) \<Rightarrow> (nat \<Rightarrow> nat \<Rightarrow> real) \<Rightarrow> (nat \<Rightarrow> nat \<Rightarrow> real) \<Rightarrow>
     (nat \<Rightarrow> nat \<Rightarrow> real) \<Rightarrow> (nat \<Rightarrow> real) \<Rightarrow>
     ((nat \<Rightarrow> real) \<times> (nat \<Rightarrow> nat \<Rightarrow> real)) option" where
  "spec_update n x P Q R z =
     (let predicted_x = x;
          predicted_P = (\<lambda>i j. P i j + Q i j);
          S = (\<lambda>i j. predicted_P i j + R i j);
          S_inv = (\<lambda>i j. if i = j then 1 / S i i else 0);
          K = spec_product n predicted_P S_inv;
          y = (\<lambda>i. z i - predicted_x i);
          new_x = (\<lambda>i. predicted_x i + (\<Sum>k<n. K i k * y k));
          new_P = spec_product n (\<lambda>i j. (if i = j then 1 else 0) - K i j) predicted_P
      in if \<exists>i<n. S i i = 0 then None else Some (new_x, new_P))"


section \<open>Loops that write matrix entries\<close>

text \<open>
  Every loop of the source writes each entry it visits once, with a value that does not
  depend on the matrix being written. The lemmas below read such a loop entry by entry.
\<close>

lemma fold_update_length: "length (fold (\<lambda>x d. d[g x := v x]) xs d) = length d"
  by (induction xs arbitrary: d) simp_all

lemma fold_update_miss:
  "p \<notin> g ` set xs \<Longrightarrow> fold (\<lambda>x d. d[g x := v x]) xs d ! p = d ! p"
  by (induction xs arbitrary: d) auto

lemma fold_update_hit:
  "distinct (map g xs) \<Longrightarrow> x \<in> set xs \<Longrightarrow> g x < length d \<Longrightarrow>
   fold (\<lambda>x d. d[g x := v x]) xs d ! g x = v x"
proof (induction xs arbitrary: d)
  case Nil
  then show ?case by simp
next
  case (Cons a xs)
  show ?case
  proof (cases "x = a")
    case True
    with Cons.prems have "g a \<notin> g ` set xs" by auto
    then have "fold (\<lambda>x d. d[g x := v x]) xs (d[g a := v a]) ! g a = d[g a := v a] ! g a"
      by (rule fold_update_miss)
    with True Cons.prems show ?thesis by simp
  next
    case False
    with Cons.prems have "x \<in> set xs" "distinct (map g xs)" by auto
    with Cons.IH [of "d[g a := v a]"] Cons.prems show ?thesis by simp
  qed
qed

lemma fold_set_elem:
  "fold (\<lambda>x M. set_elem M (fi x) (fj x) (v x)) xs M =
   M\<lparr>data := fold (\<lambda>x d. d[fi x * nat (cols M) + fj x := v x]) xs (data M)\<rparr>"
  by (induction xs arbitrary: M) (simp_all add: set_elem_def)

lemma fold_product:
  "fold (\<lambda>i. fold (f i) js) is = fold (\<lambda>(i, j). f i j) (List.product is js)"
  by (induction "is") (simp_all add: fold_map comp_def)

lemma index_inj:
  fixes C :: nat
  assumes "i * C + j = i' * C + j'" "j < C" "j' < C"
  shows "i = i' \<and> j = j'"
proof -
  have a: "(i * C + j) div C = i" using assms(2) by simp
  have b: "(i' * C + j') div C = i'" using assms(3) by simp
  have "i = i'" using a b assms(1) by metis
  with assms(1) show ?thesis by simp
qed


lemma distinct_index:
  "c \<le> C \<Longrightarrow> distinct (map (\<lambda>x. fst x * C + snd x) (List.product [0..<r] [0..<c]))"
  by (auto simp: distinct_map distinct_product inj_on_def dest: index_inj)

lemma fill_shape:
  "rows (fold (\<lambda>i. fold (\<lambda>j result. set_elem result (fi i j) (fj i j) (v i j)) js) is M) = rows M"
  "cols (fold (\<lambda>i. fold (\<lambda>j result. set_elem result (fi i j) (fj i j) (v i j)) js) is M) = cols M"
  "length (data (fold (\<lambda>i. fold (\<lambda>j result. set_elem result (fi i j) (fj i j) (v i j)) js) is M)) = length (data M)"
  by (simp_all add: fold_product split_def fold_set_elem fold_update_length)

lemma fill_elem:
  assumes "i < r" "j < c" "c \<le> nat (cols M)" "r * nat (cols M) \<le> length (data M)"
  shows "elem (fold (\<lambda>i. fold (\<lambda>j result. set_elem result i j (v i j)) [0..<c]) [0..<r] M) i j = v i j"
proof -
  let ?C = "nat (cols M)"
  let ?g = "\<lambda>x. fst x * ?C + snd x"
  let ?xs = "List.product [0..<r] [0..<c]"
  have "i * ?C + j < i * ?C + ?C" using assms by simp
  also have "\<dots> = Suc i * ?C" by simp
  also have "\<dots> \<le> r * ?C" using assms(1) by (intro mult_le_mono1) simp
  finally have lt: "?g (i, j) < length (data M)" using assms(4) by simp
  have "fold (\<lambda>x d. d[?g x := (case x of (i, j) \<Rightarrow> v i j)]) ?xs (data M) ! ?g (i, j) =
        (case (i, j) of (i, j) \<Rightarrow> v i j)"
    using assms lt by (intro fold_update_hit distinct_index) simp_all
  then show ?thesis
    by (simp add: fold_product split_def fold_set_elem elem_def)
qed


lemma fold_set_elem_shape:
  "rows (fold (\<lambda>x M. set_elem M (fi x) (fj x) (v x)) xs M) = rows M"
  "cols (fold (\<lambda>x M. set_elem M (fi x) (fj x) (v x)) xs M) = cols M"
  "length (data (fold (\<lambda>x M. set_elem M (fi x) (fj x) (v x)) xs M)) = length (data M)"
  by (simp_all add: fold_set_elem fold_update_length)

lemma fold_set_elem_hit:
  assumes "distinct (map (\<lambda>x. fi x * nat (cols M) + fj x) xs)" "x \<in> set xs"
    and "fi x * nat (cols M) + fj x < length (data M)"
  shows "elem (fold (\<lambda>x M. set_elem M (fi x) (fj x) (v x)) xs M) (fi x) (fj x) = v x"
  using fold_update_hit [where g = "\<lambda>x. fi x * nat (cols M) + fj x", OF assms]
  by (simp add: fold_set_elem elem_def)

lemma fold_set_elem_miss:
  assumes "\<And>x. x \<in> set xs \<Longrightarrow> fi x * nat (cols M) + fj x \<noteq> i * nat (cols M) + j"
  shows "elem (fold (\<lambda>x M. set_elem M (fi x) (fj x) (v x)) xs M) i j = elem M i j"
proof -
  have "i * nat (cols M) + j \<notin> (\<lambda>x. fi x * nat (cols M) + fj x) ` set xs"
  proof
    assume "i * nat (cols M) + j \<in> (\<lambda>x. fi x * nat (cols M) + fj x) ` set xs"
    then obtain x where "x \<in> set xs" "i * nat (cols M) + j = fi x * nat (cols M) + fj x"
      by auto
    with assms [of x] show False by simp
  qed
  then show ?thesis
    by (simp add: fold_set_elem elem_def fold_update_miss)
qed

lemma fill_elem_transposed:
  assumes "i < r" "j < c" "r \<le> nat (cols M)" "c * nat (cols M) \<le> length (data M)"
  shows "elem (fold (\<lambda>i. fold (\<lambda>j result. set_elem result j i (v i j)) [0..<c]) [0..<r] M) j i = v i j"
proof -
  let ?C = "nat (cols M)"
  let ?xs = "List.product [0..<r] [0..<c]"
  have "j * ?C + i < j * ?C + ?C" using assms by simp
  also have "\<dots> = Suc j * ?C" by simp
  also have "\<dots> \<le> c * ?C" using assms(2) by (intro mult_le_mono1) simp
  finally have lt: "j * ?C + i < length (data M)" using assms(4) by simp
  have d: "distinct (map (\<lambda>x. snd x * ?C + fst x) ?xs)"
    using assms(3) by (auto simp: distinct_map distinct_product inj_on_def dest: index_inj)
  have "elem (fold (\<lambda>x M. set_elem M (snd x) (fst x) (case x of (i, j) \<Rightarrow> v i j)) ?xs M)
          (snd (i, j)) (fst (i, j)) = (case (i, j) of (i, j) \<Rightarrow> v i j)"
    using assms lt d by (intro fold_set_elem_hit) simp_all
  then show ?thesis
    by (simp add: fold_product split_def)
qed

lemma diag_elem:
  assumes "n \<le> nat (cols M)" "j < nat (cols M)" "i * nat (cols M) + j < length (data M)"
  shows "elem (fold (\<lambda>k result. set_elem result k k (v k)) [0..<n] M) i j =
         (if i = j \<and> i < n then v i else elem M i j)"
proof (cases "i = j \<and> i < n")
  case True
  have "distinct (map (\<lambda>k. k * nat (cols M) + k) [0..<n])"
    using assms(1) by (auto simp: distinct_map inj_on_def dest: index_inj)
  then have "elem (fold (\<lambda>k result. set_elem result k k (v k)) [0..<n] M) i i = v i"
    using True assms by (intro fold_set_elem_hit) simp_all
  with True show ?thesis by simp
next
  case False
  have *: "elem (fold (\<lambda>k result. set_elem result k k (v k)) [0..<n] M) i j = elem M i j"
  proof (rule fold_set_elem_miss)
    fix k assume "k \<in> set [0..<n]"
    then have "k < nat (cols M)" using assms(1) by simp
    with False assms(2) \<open>k \<in> set [0..<n]\<close>
    show "k * nat (cols M) + k \<noteq> i * nat (cols M) + j"
      by (auto dest: index_inj)
  qed
  show ?thesis unfolding if_not_P [OF False] by (fact *)
qed

lemma matrix_eqI:
  assumes "wf_matrix A" "wf_matrix B" "rows A = rows B" "cols A = cols B"
    and "\<And>i j. i < nat (rows A) \<Longrightarrow> j < nat (cols A) \<Longrightarrow> elem A i j = elem B i j"
  shows "A = B"
proof -
  let ?R = "nat (rows A)" and ?C = "nat (cols A)"
  have len: "length (data A) = ?R * ?C" "length (data B) = ?R * ?C"
    using assms(1-4) by (simp_all add: wf_matrix_def)
  have "data A = data B"
  proof (rule nth_equalityI)
    show "length (data A) = length (data B)" using len by simp
  next
    fix p assume "p < length (data A)"
    then have p: "p < ?R * ?C" using len by simp
    then have C: "0 < ?C" by (cases "?C = 0") simp_all
    have "p div ?C < ?R" using p C by (simp add: less_mult_imp_div_less)
    moreover have "p mod ?C < ?C" using C by simp
    ultimately have "elem A (p div ?C) (p mod ?C) = elem B (p div ?C) (p mod ?C)"
      by (rule assms(5))
    then show "data A ! p = data B ! p"
      using assms(4) by (simp add: elem_def)
  qed
  with assms(3,4) show ?thesis by simp
qed


lemma Matrix_shape [simp]: "rows (Matrix r c) = r" "cols (Matrix r c) = c"
  by (simp_all add: Matrix_def)

lemma length_Matrix: "0 \<le> r \<Longrightarrow> length (data (Matrix r c)) = nat r * nat c"
  by (simp add: Matrix_def nat_mult_distrib)

lemma index_bound:
  fixes C :: nat
  assumes "i < R" "j < C"
  shows "i * C + j < R * C"
proof -
  have "i * C + j < i * C + C" using assms by simp
  also have "\<dots> = Suc i * C" by simp
  also have "\<dots> \<le> R * C" using assms(1) by (intro mult_le_mono1) simp
  finally show ?thesis .
qed

lemma elem_Matrix: "i < nat r \<Longrightarrow> j < nat c \<Longrightarrow> elem (Matrix r c) i j = 0"
  using index_bound [of i "nat r" j "nat c"]
  by (simp add: elem_def Matrix_def nat_mult_distrib)


lemma foldl_sum: "foldl (\<lambda>s k. s + f k) (a :: real) [0..<n] = a + sum f {..<n}"
  by (induction n) simp_all

lemma times_shape:
  "cols A = rows B \<Longrightarrow> rows (operator_times A B) = rows A"
  "cols A = rows B \<Longrightarrow> cols (operator_times A B) = cols B"
  by (simp_all add: operator_times_def fill_shape)

lemma times_wf:
  "0 \<le> rows A \<Longrightarrow> 0 \<le> cols B \<Longrightarrow> cols A = rows B \<Longrightarrow> wf_matrix (operator_times A B)"
  by (simp add: wf_matrix_def times_shape) (simp add: operator_times_def fill_shape length_Matrix)

lemma times_elem:
  assumes "cols A = rows B" "i < nat (rows A)" "j < nat (cols B)"
  shows "elem (operator_times A B) i j = (\<Sum>k<nat (cols A). elem A i k * elem B k j)"
proof -
  have "0 \<le> rows A" using assms(2) by simp
  then have "nat (rows A) * nat (cols (Matrix (rows A) (cols B)))
      \<le> length (data (Matrix (rows A) (cols B)))"
    by (simp add: length_Matrix)
  then show ?thesis
    using assms by (simp add: operator_times_def fill_elem foldl_sum)
qed

lemma plus_shape:
  "rows A = rows B \<Longrightarrow> cols A = cols B \<Longrightarrow> rows (operator_plus A B) = rows A"
  "rows A = rows B \<Longrightarrow> cols A = cols B \<Longrightarrow> cols (operator_plus A B) = cols A"
  by (simp_all add: operator_plus_def fill_shape)

lemma plus_wf:
  "0 \<le> rows A \<Longrightarrow> 0 \<le> cols A \<Longrightarrow> rows A = rows B \<Longrightarrow> cols A = cols B \<Longrightarrow>
   wf_matrix (operator_plus A B)"
  by (simp add: wf_matrix_def plus_shape) (simp add: operator_plus_def fill_shape length_Matrix)

lemma plus_elem:
  assumes "rows A = rows B" "cols A = cols B" "i < nat (rows A)" "j < nat (cols A)"
  shows "elem (operator_plus A B) i j = elem A i j + elem B i j"
proof -
  have "0 \<le> rows A" using assms(3) by simp
  then have "nat (rows A) * nat (cols (Matrix (rows A) (cols A)))
      \<le> length (data (Matrix (rows A) (cols A)))"
    by (simp add: length_Matrix)
  then show ?thesis
    using assms by (simp add: operator_plus_def fill_elem)
qed

lemma minus_shape:
  "rows A = rows B \<Longrightarrow> cols A = cols B \<Longrightarrow> rows (operator_minus A B) = rows A"
  "rows A = rows B \<Longrightarrow> cols A = cols B \<Longrightarrow> cols (operator_minus A B) = cols A"
  by (simp_all add: operator_minus_def fill_shape)

lemma minus_wf:
  "0 \<le> rows A \<Longrightarrow> 0 \<le> cols A \<Longrightarrow> rows A = rows B \<Longrightarrow> cols A = cols B \<Longrightarrow>
   wf_matrix (operator_minus A B)"
  by (simp add: wf_matrix_def minus_shape) (simp add: operator_minus_def fill_shape length_Matrix)

lemma minus_elem:
  assumes "rows A = rows B" "cols A = cols B" "i < nat (rows A)" "j < nat (cols A)"
  shows "elem (operator_minus A B) i j = elem A i j - elem B i j"
proof -
  have "0 \<le> rows A" using assms(3) by simp
  then have "nat (rows A) * nat (cols (Matrix (rows A) (cols A)))
      \<le> length (data (Matrix (rows A) (cols A)))"
    by (simp add: length_Matrix)
  then show ?thesis
    using assms by (simp add: operator_minus_def fill_elem)
qed

lemma transpose_shape:
  "rows (transpose_m A) = cols A" "cols (transpose_m A) = rows A"
  by (simp_all add: transpose_m_def fill_shape)

lemma transpose_wf: "0 \<le> rows A \<Longrightarrow> 0 \<le> cols A \<Longrightarrow> wf_matrix (transpose_m A)"
  by (simp add: wf_matrix_def transpose_shape) (simp add: transpose_m_def fill_shape length_Matrix)

lemma transpose_elem:
  assumes "i < nat (rows A)" "j < nat (cols A)"
  shows "elem (transpose_m A) j i = elem A i j"
proof -
  have "0 \<le> cols A" using assms(2) by simp
  then have "nat (cols A) * nat (cols (Matrix (cols A) (rows A)))
      \<le> length (data (Matrix (cols A) (rows A)))"
    by (simp add: length_Matrix)
  then show ?thesis
    using assms by (simp add: transpose_m_def fill_elem_transposed)
qed

lemma identity_shape: "rows (identity n) = n" "cols (identity n) = n"
  by (simp_all add: identity_def fold_set_elem_shape)

lemma identity_wf: "0 \<le> n \<Longrightarrow> wf_matrix (identity n)"
  by (simp add: wf_matrix_def identity_shape) (simp add: identity_def fold_set_elem_shape length_Matrix)

lemma diag_Matrix_elem:
  assumes "i < nat n" "j < nat n"
  shows "elem (fold (\<lambda>k result. set_elem result k k (v k)) [0..<nat n] (Matrix n n)) i j =
         (if i = j then v i else 0)"
proof -
  have "i * nat n + j < nat n * nat n" using assms by (rule index_bound)
  then have "i * nat (cols (Matrix n n)) + j < length (data (Matrix n n))"
    using assms by (simp add: length_Matrix)
  then show ?thesis
    using assms by (simp add: diag_elem elem_Matrix)
qed

lemma identity_elem:
  "i < nat n \<Longrightarrow> j < nat n \<Longrightarrow> elem (identity n) i j = (if i = j then 1 else 0)"
  unfolding identity_def by (rule diag_Matrix_elem)


section \<open>The mismatch policy of the matrix operations\<close>

lemma Matrix_empty: "Matrix 0 0 = \<lparr>rows = 0, cols = 0, data = []\<rparr>"
  by (simp add: Matrix_def)

text \<open>
  Claim C9. When \<open>A.cols \<noteq> B.rows\<close> the product is the empty \<open>0 \<times> 0\<close> matrix, and when
  the shapes of \<open>A\<close> and \<open>B\<close> differ so are the sum and the difference. The three
  operations are total functions into matrices, so nothing else is signalled. On
  matching shapes the result has the expected shape: \<open>A.rows \<times> B.cols\<close> for the
  product and the shape of \<open>A\<close> for the sum and the difference, with a store of that
  many entries.
\<close>

theorem mismatch_returns_empty_matrix:
  "(cols A \<noteq> rows B \<longrightarrow> operator_times A B = \<lparr>rows = 0, cols = 0, data = []\<rparr>) \<and>
   (rows A \<noteq> rows B \<or> cols A \<noteq> cols B \<longrightarrow>
      operator_plus A B = \<lparr>rows = 0, cols = 0, data = []\<rparr> \<and>
      operator_minus A B = \<lparr>rows = 0, cols = 0, data = []\<rparr>) \<and>
   (cols A = rows B \<longrightarrow>
      rows (operator_times A B) = rows A \<and> cols (operator_times A B) = cols B \<and>
      length (data (operator_times A B)) = nat (rows A * cols B)) \<and>
   (rows A = rows B \<and> cols A = cols B \<longrightarrow>
      rows (operator_plus A B) = rows A \<and> cols (operator_plus A B) = cols A \<and>
      length (data (operator_plus A B)) = nat (rows A * cols A) \<and>
      rows (operator_minus A B) = rows A \<and> cols (operator_minus A B) = cols A \<and>
      length (data (operator_minus A B)) = nat (rows A * cols A))"
proof (intro conjI impI)
  assume "cols A \<noteq> rows B"
  then show "operator_times A B = \<lparr>rows = 0, cols = 0, data = []\<rparr>"
    by (simp add: operator_times_def Matrix_empty)
next
  assume "rows A \<noteq> rows B \<or> cols A \<noteq> cols B"
  then show "operator_plus A B = \<lparr>rows = 0, cols = 0, data = []\<rparr>"
    by (auto simp add: operator_plus_def Matrix_empty)
next
  assume "rows A \<noteq> rows B \<or> cols A \<noteq> cols B"
  then show "operator_minus A B = \<lparr>rows = 0, cols = 0, data = []\<rparr>"
    by (auto simp add: operator_minus_def Matrix_empty)
next
  assume "cols A = rows B"
  then show "rows (operator_times A B) = rows A" "cols (operator_times A B) = cols B"
    by (simp_all add: times_shape)
  show "length (data (operator_times A B)) = nat (rows A * cols B)"
    using \<open>cols A = rows B\<close> by (simp add: operator_times_def fill_shape) (simp add: Matrix_def)
next
  assume eq: "rows A = rows B \<and> cols A = cols B"
  then show "rows (operator_plus A B) = rows A" "cols (operator_plus A B) = cols A"
    "rows (operator_minus A B) = rows A" "cols (operator_minus A B) = cols A"
    by (simp_all add: plus_shape minus_shape)
  show "length (data (operator_plus A B)) = nat (rows A * cols A)"
    using eq by (simp add: operator_plus_def fill_shape) (simp add: Matrix_def)
  show "length (data (operator_minus A B)) = nat (rows A * cols A)"
    using eq by (simp add: operator_minus_def fill_shape) (simp add: Matrix_def)
qed

theorem mismatch_returns_empty_matrix_witness:
  "operator_times (Matrix 2 3) (Matrix 2 3) = \<lparr>rows = 0, cols = 0, data = []\<rparr> \<and>
   operator_plus (Matrix 2 3) (Matrix 3 2) = \<lparr>rows = 0, cols = 0, data = []\<rparr> \<and>
   operator_minus (Matrix 2 3) (Matrix 3 2) = \<lparr>rows = 0, cols = 0, data = []\<rparr> \<and>
   rows (operator_times (Matrix 2 3) (Matrix 3 1)) = 2 \<and>
   cols (operator_times (Matrix 2 3) (Matrix 3 1)) = 1 \<and>
   length (data (operator_times (Matrix 2 3) (Matrix 3 1))) = 2 \<and>
   rows (operator_plus (Matrix 2 3) (Matrix 2 3)) = 2 \<and>
   cols (operator_minus (Matrix 2 3) (Matrix 2 3)) = 3"
  using mismatch_returns_empty_matrix [of "Matrix 2 3" "Matrix 2 3"]
    mismatch_returns_empty_matrix [of "Matrix 2 3" "Matrix 3 2"]
    mismatch_returns_empty_matrix [of "Matrix 2 3" "Matrix 3 1"]
  by simp

section \<open>Calls that fail\<close>

lemma dimensions_KalmanFilter [simp]: "dimensions (KalmanFilter n q r) = n"
  by (simp add: KalmanFilter_def)

text \<open>
  Claim C3. An \<^verbatim>\<open>update\<close> whose measurement count differs from the dimensions of the
  filter returns the null result and the filter itself, every member as it was. So a
  run that starts with such a call is the run without it, but for the null result in
  front; and through \<^verbatim>\<open>kf_update\<close> the registry is returned as it was.
\<close>

theorem mismatched_update_changes_nothing:
  assumes "int (length z) \<noteq> dimensions kf"
  shows "update kf z = Inr (None, kf) \<and>
         updates kf (z # zs) =
           (case updates kf zs of Inl f \<Rightarrow> Inl f | Inr (rs, kf') \<Rightarrow> Inr (None # rs, kf')) \<and>
         (g_filters g h = Some kf \<longrightarrow> kf_update g h z = Inr (None, g))"
proof (intro conjI impI)
  show a: "update kf z = Inr (None, kf)"
    using assms by (simp add: update_def)
  then show "updates kf (z # zs) =
      (case updates kf zs of Inl f \<Rightarrow> Inl f | Inr (rs, kf') \<Rightarrow> Inr (None # rs, kf'))"
    by (simp split: sum.splits)
  assume live: "g_filters g h = Some kf"
  then have "(g_filters g)(h \<mapsto> kf) = g_filters g" by (simp add: fun_upd_idem_iff)
  with a live show "kf_update g h z = Inr (None, g)"
    by (simp add: kf_update_def)
qed

theorem mismatched_update_changes_nothing_witness:
  "int (length [1 :: real]) \<noteq> dimensions (KalmanFilter 2 0 1) \<and>
   update (KalmanFilter 2 0 1) [1] = Inr (None, KalmanFilter 2 0 1) \<and>
   kf_update (snd (projr (kf_create initial_registry 2 0 1))) 1 [1] =
     Inr (None, snd (projr (kf_create initial_registry 2 0 1)))"
proof -
  have h: "int (length [1 :: real]) \<noteq> dimensions (KalmanFilter 2 0 1)" by simp
  have live: "g_filters (snd (projr (kf_create initial_registry 2 0 1))) 1 = Some (KalmanFilter 2 0 1)"
    by (simp add: kf_create_def new_KalmanFilter_def initial_registry_def int32_def)
  show ?thesis
    using h live
      mismatched_update_changes_nothing
        [OF h, of "[]" "snd (projr (kf_create initial_registry 2 0 1))" 1]
    by simp
qed

lemma kf_destroy_unmaps: "g_filters (kf_destroy g h) h = None"
  by (simp add: kf_destroy_def split: option.splits)

text \<open>
  Claim C7. For a handle that maps to no filter, \<^verbatim>\<open>kf_update\<close> returns the null result
  and the registry as it was, and \<^verbatim>\<open>kf_destroy\<close> returns the registry as it was. A
  destroyed handle maps to no filter, so a second \<^verbatim>\<open>kf_destroy\<close> on it does nothing; and
  no handle maps to a filter before the first create.
\<close>

theorem invalid_handle_is_harmless:
  "(g_filters g h = None \<longrightarrow> kf_update g h z = Inr (None, g) \<and> kf_destroy g h = g) \<and>
   g_filters (kf_destroy g h) h = None \<and>
   kf_destroy (kf_destroy g h) h = kf_destroy g h \<and>
   g_filters initial_registry h = None"
proof (intro conjI impI)
  assume "g_filters g h = None"
  then show "kf_update g h z = Inr (None, g)" "kf_destroy g h = g"
    by (simp_all add: kf_update_def kf_destroy_def)
next
  show gone: "g_filters (kf_destroy g h) h = None"
    by (rule kf_destroy_unmaps)
  then show "kf_destroy (kf_destroy g h) h = kf_destroy g h"
    by (simp add: kf_destroy_def [of "kf_destroy g h"])
  show "g_filters initial_registry h = None"
    by (simp add: initial_registry_def)
qed

theorem invalid_handle_is_harmless_witness:
  "g_filters initial_registry 0 = None \<and>
   kf_update initial_registry 0 [1] = Inr (None, initial_registry) \<and>
   kf_destroy initial_registry 0 = initial_registry \<and>
   kf_destroy (kf_destroy (snd (projr (kf_create initial_registry 1 0 1))) 1) 1 =
     kf_destroy (snd (projr (kf_create initial_registry 1 0 1))) 1"
  using invalid_handle_is_harmless [of initial_registry 0 "[1]"]
    invalid_handle_is_harmless [of "snd (projr (kf_create initial_registry 1 0 1))" 1 "[1]"]
  by simp

section \<open>The frame of the registry calls\<close>

text \<open>
  Claim C10. A \<^verbatim>\<open>kf_update\<close> on handle \<open>h\<close> that returns leaves every other handle's
  filter, the set of live handles and the counter as they were; when the model has no
  result for it, the fault is that of the filter of \<open>h\<close> itself. A \<^verbatim>\<open>kf_destroy\<close> on \<open>h\<close>
  removes the mapping of \<open>h\<close> only and leaves every other filter and the counter as they
  were.
\<close>

theorem registry_calls_are_isolated:
  "(\<forall>r g'. kf_update g h z = Inr (r, g') \<longrightarrow>
      (\<forall>h'. h' \<noteq> h \<longrightarrow> g_filters g' h' = g_filters g h') \<and>
      dom (g_filters g') = dom (g_filters g) \<and>
      g_next_handle g' = g_next_handle g) \<and>
   (\<forall>f. kf_update g h z = Inl f \<longleftrightarrow> (\<exists>kf. g_filters g h = Some kf \<and> update kf z = Inl f)) \<and>
   (\<forall>h'. h' \<noteq> h \<longrightarrow> g_filters (kf_destroy g h) h' = g_filters g h') \<and>
   dom (g_filters (kf_destroy g h)) = dom (g_filters g) - {h} \<and>
   g_next_handle (kf_destroy g h) = g_next_handle g"
proof (intro conjI allI impI)
  fix r g' assume u: "kf_update g h z = Inr (r, g')"
  show "dom (g_filters g') = dom (g_filters g)"
    using u by (auto simp: kf_update_def split: option.splits sum.splits if_splits)
  show "g_next_handle g' = g_next_handle g"
    using u by (auto simp: kf_update_def split: option.splits sum.splits)
  fix h' assume "h' \<noteq> h"
  then show "g_filters g' h' = g_filters g h'"
    using u by (auto simp: kf_update_def split: option.splits sum.splits)
next
  fix f show "kf_update g h z = Inl f \<longleftrightarrow> (\<exists>kf. g_filters g h = Some kf \<and> update kf z = Inl f)"
    by (auto simp: kf_update_def split: option.splits sum.splits)
next
  fix h' assume "h' \<noteq> h"
  then show "g_filters (kf_destroy g h) h' = g_filters g h'"
    by (simp add: kf_destroy_def split: option.splits)
next
  show "dom (g_filters (kf_destroy g h)) = dom (g_filters g) - {h}"
    by (auto simp: kf_destroy_def split: option.splits if_splits)
  show "g_next_handle (kf_destroy g h) = g_next_handle g"
    by (simp add: kf_destroy_def split: option.splits)
qed

theorem registry_calls_are_isolated_witness:
  "\<exists>r g'.
     kf_update (snd (projr (kf_create (snd (projr (kf_create initial_registry 1 0 1))) 1 0 1))) 1 [5] =
       Inr (r, g') \<and>
     g_filters g' 2 = Some (KalmanFilter 1 0 1) \<and>
     g_next_handle g' = 3 \<and>
     g_filters (kf_destroy g' 1) 2 = Some (KalmanFilter 1 0 1)"
proof -
  let ?g = "snd (projr (kf_create (snd (projr (kf_create initial_registry 1 0 1))) 1 0 1))"
  have live: "g_filters ?g 1 = Some (KalmanFilter 1 0 1)"
    "g_filters ?g 2 = Some (KalmanFilter 1 0 1)" "g_next_handle ?g = 3"
    by (simp_all add: kf_create_def new_KalmanFilter_def initial_registry_def int32_def)
  have "\<not> isl (update (KalmanFilter 1 0 1) [5])" by code_simp
  then obtain r kf' where "update (KalmanFilter 1 0 1) [5] = Inr (r, kf')"
    by (cases "update (KalmanFilter 1 0 1) [5]") auto
  then have u: "kf_update ?g 1 [5] = Inr (r, ?g\<lparr>g_filters := (g_filters ?g)(1 \<mapsto> kf')\<rparr>)"
    using live by (simp add: kf_update_def)
  let ?g' = "?g\<lparr>g_filters := (g_filters ?g)(1 \<mapsto> kf')\<rparr>"
  have "g_filters ?g' 2 = g_filters ?g 2" "g_next_handle ?g' = g_next_handle ?g"
    using registry_calls_are_isolated [of ?g 1 "[5]"] u by simp_all
  moreover have "g_filters (kf_destroy ?g' 1) 2 = g_filters ?g' 2"
    using registry_calls_are_isolated [of ?g' 1 "[5]"] by simp
  ultimately show ?thesis using u live by (intro exI [of _ r] exI [of _ ?g']) simp
qed


section \<open>The handle counter\<close>

lemma int32_id: "- 2147483648 \<le> x \<Longrightarrow> x < 2147483648 \<Longrightarrow> int32 x = x"
  by (simp add: int32_def)

lemma int32_add: "int32 (int32 a + b) = int32 (a + b)"
proof -
  have "(((a + 2147483648) mod 4294967296 - 2147483648) + b + 2147483648) mod 4294967296
      = ((a + 2147483648) mod 4294967296 + b) mod 4294967296"
    by (simp add: algebra_simps)
  also have "\<dots> = (a + 2147483648 + b) mod 4294967296"
    by (rule mod_add_left_eq)
  finally show ?thesis by (simp add: int32_def algebra_simps)
qed

lemma int32_bounds: "- 2147483648 \<le> int32 x" "int32 x < 2147483648"
  by (simp_all add: int32_def)

lemma int32_high:
  assumes "2147483648 \<le> x" "x < 4294967296"
  shows "int32 x = x - 4294967296"
proof -
  have "x + 2147483648 = (x - 2147483648) + 4294967296" by linarith
  then have "(x + 2147483648) mod 4294967296 = ((x - 2147483648) + 4294967296) mod 4294967296"
    by (simp only:)
  also have "\<dots> = (x - 2147483648) mod 4294967296"
    by (rule mod_add_self2)
  also have "\<dots> = x - 2147483648"
    using assms by (intro mod_pos_pos_trivial) simp_all
  finally show ?thesis by (simp add: int32_def)
qed

lemma new_KalmanFilter_fits:
  assumes "0 < d" "d \<le> 46340"
  shows "new_KalmanFilter d q r = Inr (KalmanFilter d q r)"
proof -
  have "d * d \<le> 46340 * 46340" using assms by (intro mult_mono) simp_all
  moreover have "0 \<le> d * d" by simp
  ultimately have "int32 (d * d) = d * d" by (intro int32_id) linarith+
  then show ?thesis by (simp add: new_KalmanFilter_def)
qed

lemma kf_create_refused: "d \<le> 0 \<Longrightarrow> kf_create g d q r = Inr (0, g)"
  by (simp add: kf_create_def)

lemma kf_create_crash:
  "0 < d \<Longrightarrow> new_KalmanFilter d q r = Inl f \<Longrightarrow> kf_create g d q r = Inl f"
  by (simp add: kf_create_def)

lemma kf_create_ok:
  "0 < d \<Longrightarrow> new_KalmanFilter d q r = Inr kf \<Longrightarrow>
   kf_create g d q r =
     Inr (g_next_handle g,
          g\<lparr>g_next_handle := int32 (g_next_handle g + 1),
            g_filters := (g_filters g)(g_next_handle g \<mapsto> kf)\<rparr>)"
  by (simp add: kf_create_def Let_def)

lemma kf_create_counter:
  "0 < d \<Longrightarrow> new_KalmanFilter d q r = Inr kf \<Longrightarrow>
   g_next_handle (snd (projr (kf_create g d q r))) = int32 (g_next_handle g + 1)"
  by (simp add: kf_create_ok)

lemma kf_create_dom:
  "0 < d \<Longrightarrow> new_KalmanFilter d q r = Inr kf \<Longrightarrow>
   dom (g_filters (snd (projr (kf_create g d q r)))) = insert (g_next_handle g) (dom (g_filters g))"
  by (simp add: kf_create_ok)

lemma kf_destroy_counter: "g_next_handle (kf_destroy g h) = g_next_handle g"
  by (simp add: kf_destroy_def split: option.splits)

lemma kf_destroy_dom: "dom (g_filters (kf_destroy g h)) = dom (g_filters g) - {h}"
  by (auto simp: kf_destroy_def split: option.splits if_splits)

lemma run_calls_refused:
  "d \<le> 0 \<Longrightarrow>
   run_calls g (Create d q r # cs) = (Refused # fst (run_calls g cs), snd (run_calls g cs))"
  by (simp add: kf_create_refused split_def Let_def)

lemma run_calls_crash:
  "0 < d \<Longrightarrow> new_KalmanFilter d q r = Inl f \<Longrightarrow>
   run_calls g (Create d q r # cs) = ([Crashed f], g)"
  by (simp add: kf_create_crash)

lemma run_calls_ok:
  "0 < d \<Longrightarrow> new_KalmanFilter d q r = Inr kf \<Longrightarrow>
   run_calls g (Create d q r # cs) =
     (Created (g_next_handle g) # fst (run_calls (snd (projr (kf_create g d q r))) cs),
      snd (run_calls (snd (projr (kf_create g d q r))) cs))"
  by (simp add: kf_create_ok split_def Let_def)

lemma run_calls_Destroy:
  "run_calls g (Destroy h # cs) =
     ((if h \<in> dom (g_filters g) then Destroyed h else Absent h)
        # fst (run_calls (kf_destroy g h) cs),
      snd (run_calls (kf_destroy g h) cs))"
  by (simp add: split_def Let_def)

lemma length_created: "length (created (fst (run_calls g cs))) = successes cs"
proof (induction cs arbitrary: g)
  case Nil
  then show ?case by simp
next
  case (Cons c cs)
  show ?case
  proof (cases c)
    case (Create d q r)
    show ?thesis
    proof (cases "d \<le> 0")
      case True
      with Create Cons.IH [of g] show ?thesis
        by (simp add: run_calls_refused del: run_calls.simps)
    next
      case False
      then have d: "0 < d" by simp
      show ?thesis
      proof (cases "new_KalmanFilter d q r")
        case (Inl f)
        with d Create show ?thesis
          by (simp add: run_calls_crash del: run_calls.simps)
      next
        case (Inr kf)
        with d Create Cons.IH [of "snd (projr (kf_create g d q r))"] show ?thesis
          by (simp add: run_calls_ok del: run_calls.simps)
      qed
    qed
  next
    case (Destroy h)
    with Cons.IH [of "kf_destroy g h"] show ?thesis
      by (simp add: run_calls_Destroy del: run_calls.simps)
  qed
qed

lemma Created_in_created: "Created h \<in> set es \<longleftrightarrow> h \<in> set (created es)"
  by (induction es rule: created.induct) auto


lemma created_append: "created (xs @ ys) = created xs @ created ys"
  by (induction xs rule: created.induct) simp_all

lemma map_shift: "c # map (\<lambda>i. c + 1 + int i) [0..<k] = map (\<lambda>i. c + int i) [0..<Suc k]"
proof -
  have "map (\<lambda>i. c + int i) [0..<Suc k] = (c + int 0) # map (\<lambda>i. c + int i) (map Suc [0..<k])"
    by (simp only: upt_conv_Cons [of 0 "Suc k"] map_Suc_upt list.map)
  then show ?thesis by (simp add: comp_def algebra_simps)
qed

lemma run_created:
  assumes "successes cs = 0 \<or>
      (- 2147483648 \<le> g_next_handle g \<and> g_next_handle g + int (successes cs) \<le> 2147483648)"
  shows "created (fst (run_calls g cs)) = map (\<lambda>i. g_next_handle g + int i) [0..<successes cs]"
  using assms
proof (induction cs arbitrary: g)
  case Nil
  then show ?case by simp
next
  case (Cons call cs)
  show ?case
  proof (cases call)
    case (Create d q r)
    show ?thesis
    proof (cases "d \<le> 0")
      case True
      with Create Cons.prems Cons.IH [of g] show ?thesis
        by (simp add: run_calls_refused del: run_calls.simps)
    next
      case False
      then have d: "0 < d" by simp
      show ?thesis
      proof (cases "new_KalmanFilter d q r")
        case (Inl f)
        with d Create show ?thesis
          by (simp add: run_calls_crash del: run_calls.simps)
      next
        case (Inr kf)
        let ?c = "g_next_handle g"
        let ?g1 = "snd (projr (kf_create g d q r))"
        from False Create Inr Cons.prems
        have range: "- 2147483648 \<le> ?c" "?c + 1 + int (successes cs) \<le> 2147483648"
          by simp_all
        have c1: "g_next_handle ?g1 = int32 (?c + 1)"
          using d Inr by (rule kf_create_counter)
        have rest: "created (fst (run_calls ?g1 cs)) =
            map (\<lambda>i. ?c + 1 + int i) [0..<successes cs]"
        proof (cases "successes cs = 0")
          case True
          with Cons.IH [of ?g1] show ?thesis by simp
        next
          case False
          with range have "int32 (?c + 1) = ?c + 1" by (intro int32_id) simp_all
          with c1 range Cons.IH [of ?g1] show ?thesis by simp
        qed
        have "created (fst (run_calls g (call # cs))) = ?c # created (fst (run_calls ?g1 cs))"
          using d Inr Create by (simp add: run_calls_ok del: run_calls.simps)
        also have "\<dots> = map (\<lambda>i. ?c + int i) [0..<Suc (successes cs)]"
          unfolding rest by (rule map_shift)
        finally show ?thesis using False Create Inr by simp
      qed
    qed
  next
    case (Destroy h)
    with Cons.prems Cons.IH [of "kf_destroy g h"] show ?thesis
      by (simp add: run_calls_Destroy kf_destroy_counter del: run_calls.simps)
  qed
qed

lemma destroyed_before_created:
  assumes "successes cs = 0 \<or>
      (- 2147483648 \<le> g_next_handle g \<and> g_next_handle g + int (successes cs) \<le> 2147483648 \<and>
       (\<forall>x\<in>dom (g_filters g). x < g_next_handle g))"
    and "fst (run_calls g cs) = es1 @ Created h # es2" and "Destroyed h' \<in> set es1"
  shows "h' < h"
  using assms
proof (induction cs arbitrary: g es1)
  case Nil
  then show ?case by simp
next
  case (Cons call cs)
  let ?c = "g_next_handle g"
  from Cons.prems(3) obtain e es1' where es1: "es1 = e # es1'" by (cases es1) auto
  show ?case
  proof (cases call)
    case (Create d q r)
    show ?thesis
    proof (cases "d \<le> 0")
      case True
      from Cons.prems(2) es1 Create True
      have e: "e = Refused" and rest: "fst (run_calls g cs) = es1' @ Created h # es2"
        by (simp_all add: run_calls_refused del: run_calls.simps)
      from e es1 Cons.prems(3) have in_rest: "Destroyed h' \<in> set es1'" by simp
      from Cons.prems(1) Create True
      have "successes cs = 0 \<or>
          (- 2147483648 \<le> ?c \<and> ?c + int (successes cs) \<le> 2147483648 \<and>
           (\<forall>x\<in>dom (g_filters g). x < ?c))"
        by simp
      from Cons.IH [OF this rest in_rest] show ?thesis .
    next
      case False
      then have d: "0 < d" by simp
      show ?thesis
      proof (cases "new_KalmanFilter d q r")
        case (Inl f)
        with d Create Cons.prems(2) es1 show ?thesis
          by (simp add: run_calls_crash del: run_calls.simps)
      next
        case (Inr kf)
        let ?g1 = "snd (projr (kf_create g d q r))"
        from Cons.prems(2) es1 Create d Inr
        have e: "e = Created ?c" and rest: "fst (run_calls ?g1 cs) = es1' @ Created h # es2"
          by (simp_all add: run_calls_ok del: run_calls.simps)
        from e es1 Cons.prems(3) have in_rest: "Destroyed h' \<in> set es1'" by simp
        from rest have "h \<in> set (created (fst (run_calls ?g1 cs)))"
          by (simp add: created_append)
        then have pos: "0 < successes cs"
          using length_created [of ?g1 cs] by (cases "successes cs") auto
        with Cons.prems(1) Create False Inr
        have range: "- 2147483648 \<le> ?c" "?c + 1 + int (successes cs) \<le> 2147483648"
          "\<forall>x\<in>dom (g_filters g). x < ?c"
          by auto
        with pos have "?c + 1 < 2147483648" by simp
        with range(1) have "int32 (?c + 1) = ?c + 1" by (intro int32_id) simp_all
        with d Inr have c1: "g_next_handle ?g1 = ?c + 1" by (simp add: kf_create_counter)
        have "\<forall>x\<in>dom (g_filters ?g1). x < ?c + 1"
        proof
          fix x assume "x \<in> dom (g_filters ?g1)"
          then have "x = ?c \<or> x \<in> dom (g_filters g)"
            using d Inr by (simp add: kf_create_dom)
          then show "x < ?c + 1"
          proof
            assume "x = ?c"
            then show ?thesis by simp
          next
            assume "x \<in> dom (g_filters g)"
            with range(3) have "x < ?c" by (rule bspec)
            then show ?thesis by simp
          qed
        qed
        with c1 range have "successes cs = 0 \<or>
            (- 2147483648 \<le> g_next_handle ?g1 \<and>
             g_next_handle ?g1 + int (successes cs) \<le> 2147483648 \<and>
             (\<forall>x\<in>dom (g_filters ?g1). x < g_next_handle ?g1))"
          by simp
        from Cons.IH [OF this rest in_rest] show ?thesis .
      qed
    qed
  next
    case (Destroy x)
    let ?g1 = "kf_destroy g x"
    from Cons.prems(2) es1 Destroy
    have e: "e = (if x \<in> dom (g_filters g) then Destroyed x else Absent x)"
      and rest: "fst (run_calls ?g1 cs) = es1' @ Created h # es2"
      by (simp_all add: run_calls_Destroy del: run_calls.simps)
    from rest have h_in: "h \<in> set (created (fst (run_calls ?g1 cs)))"
      by (simp add: created_append)
    then have pos: "0 < successes cs"
      using length_created [of ?g1 cs] by (cases "successes cs") auto
    with Cons.prems(1) Destroy
    have range: "- 2147483648 \<le> ?c" "?c + int (successes cs) \<le> 2147483648"
      "\<forall>x\<in>dom (g_filters g). x < ?c"
      by auto
    have inv1: "- 2147483648 \<le> g_next_handle ?g1"
      "g_next_handle ?g1 + int (successes cs) \<le> 2147483648"
      "\<forall>y\<in>dom (g_filters ?g1). y < g_next_handle ?g1"
      using range by (simp_all add: kf_destroy_counter kf_destroy_dom)
    show ?thesis
    proof (cases "Destroyed h' \<in> set es1'")
      case True
      with inv1 Cons.IH [of ?g1 es1'] rest show ?thesis by simp
    next
      case False
      with Cons.prems(3) es1 e have "h' = x" "x \<in> dom (g_filters g)"
        by (auto split: if_splits)
      with range(3) have "h' < ?c" by simp
      moreover have "?c \<le> h"
        using h_in run_created [of cs ?g1] inv1 by (auto simp: kf_destroy_counter)
      ultimately show ?thesis by simp
    qed
  qed
qed

lemma map_upt_shift: "f 0 # map (\<lambda>i. f (Suc i)) [0..<k] = map f [0..<Suc k]"
proof -
  have "map f [0..<Suc k] = f 0 # map f (map Suc [0..<k])"
    by (simp only: upt_conv_Cons [of 0 "Suc k"] map_Suc_upt list.map)
  then show ?thesis by (simp add: comp_def)
qed

lemma int32_idem: "int32 (int32 a) = int32 a"
  using int32_add [of a 0] by simp

lemma new_KalmanFilter_one: "new_KalmanFilter 1 q r = Inr (KalmanFilter 1 q r)"
  by (rule new_KalmanFilter_fits) simp_all

lemma churn_round:
  "run_calls g (Create 1 0 0 # Destroy (g_next_handle g) # cs) =
     (Created (g_next_handle g) # Destroyed (g_next_handle g)
        # fst (run_calls (kf_destroy (snd (projr (kf_create g 1 0 0))) (g_next_handle g)) cs),
      snd (run_calls (kf_destroy (snd (projr (kf_create g 1 0 0))) (g_next_handle g)) cs))"
  by (simp add: run_calls_ok [OF _ new_KalmanFilter_one] run_calls_Destroy
      kf_create_dom [OF _ new_KalmanFilter_one] del: run_calls.simps)

lemma churn_counter_step:
  "g_next_handle (kf_destroy (snd (projr (kf_create g 1 0 0))) h) = int32 (g_next_handle g + 1)"
  by (simp add: kf_destroy_counter kf_create_counter [OF _ new_KalmanFilter_one])

lemma churn_trace:
  "int32 (g_next_handle g) = g_next_handle g \<Longrightarrow>
   fst (run_calls g (churn (g_next_handle g) k)) =
     concat (map (\<lambda>i. [Created (int32 (g_next_handle g + int i)),
                        Destroyed (int32 (g_next_handle g + int i))]) [0..<k])"
proof (induction k arbitrary: g)
  case 0
  then show ?case by simp
next
  case (Suc k)
  let ?c = "g_next_handle g"
  let ?g1 = "kf_destroy (snd (projr (kf_create g 1 0 0))) ?c"
  let ?f = "\<lambda>i. [Created (int32 (?c + int i)), Destroyed (int32 (?c + int i))]"
  have c1: "g_next_handle ?g1 = int32 (?c + 1)" by (rule churn_counter_step)
  have step: "int32 (int32 (?c + 1) + int i) = int32 (?c + int (Suc i))" for i
    by (simp only: int32_add) (simp add: algebra_simps)
  have "fst (run_calls ?g1 (churn (int32 (?c + 1)) k)) =
      concat (map (\<lambda>i. ?f (Suc i)) [0..<k])"
    using Suc.IH [of ?g1] c1 by (simp only: int32_idem step)
  then have "fst (run_calls g (churn ?c (Suc k))) = concat (?f 0 # map (\<lambda>i. ?f (Suc i)) [0..<k])"
    using Suc.prems by (simp add: churn_round del: run_calls.simps)
  also have "?f 0 # map (\<lambda>i. ?f (Suc i)) [0..<k] = map ?f [0..<Suc k]"
    by (rule map_upt_shift)
  finally show ?case .
qed


lemma created_concat_pairs:
  "created (concat (map (\<lambda>i. [Created (f i), Destroyed (f i)]) xs)) = map f xs"
  by (induction xs) simp_all

text \<open>
  Claim C6, as amended. Handles come from a counter that starts at 1. In every sequence
  of interleaved \<^verbatim>\<open>kf_create\<close> and \<^verbatim>\<open>kf_destroy\<close> calls on the initial registry in which at
  most \<open>2^31 - 1\<close> creates succeed, the successful creates return 1, 2, 3, ... in this
  order: each handle is strictly greater than every handle returned before it, the
  handles are pairwise distinct, and a handle returned by a create is greater than
  every handle destroyed before that create.
\<close>

theorem handles_increase_without_reuse:
  assumes "run_calls initial_registry cs = (es, g)" and "length (created es) \<le> 2147483647"
  shows "created es = map int [1..<Suc (length (created es))] \<and>
         sorted_wrt (<) (created es) \<and> distinct (created es) \<and>
         (\<forall>es1 h es2 h'. es = es1 @ Created h # es2 \<and>
            (Created h' \<in> set es1 \<or> Destroyed h' \<in> set es1) \<longrightarrow> h' < h)"
proof -
  let ?k = "length (created es)"
  from assms(1) have es: "es = fst (run_calls initial_registry cs)" by simp
  then have k: "successes cs = ?k" by (simp add: length_created)
  have c: "g_next_handle initial_registry = 1" "dom (g_filters initial_registry) = {}"
    by (simp_all add: initial_registry_def)
  have "created es = map (\<lambda>i. 1 + int i) [0..<?k]"
    using run_created [of cs initial_registry] assms(2) k c es by simp
  also have "\<dots> = map int (map Suc [0..<?k])" by (simp add: comp_def)
  also have "\<dots> = map int [1..<Suc ?k]" by (simp only: map_Suc_upt One_nat_def)
  finally have eq: "created es = map int [1..<Suc ?k]" .
  have "sorted_wrt (<) (map int [1..<Suc ?k])"
    by (simp add: sorted_wrt_map del: upt_Suc)
  with eq have sorted: "sorted_wrt (<) (created es)" by simp
  then have dist: "distinct (created es)"
    by (simp add: strict_sorted_iff)
  have "h' < h" if split: "es = es1 @ Created h # es2"
    and before: "Created h' \<in> set es1 \<or> Destroyed h' \<in> set es1" for es1 h es2 h'
    using before
  proof
    assume "Created h' \<in> set es1"
    then have "h' \<in> set (created es1)" by (simp add: Created_in_created)
    with sorted split show ?thesis
      by (simp add: created_append sorted_wrt_append)
  next
    assume "Destroyed h' \<in> set es1"
    with destroyed_before_created [of cs initial_registry es1 h es2 h'] split es k c assms(2)
    show ?thesis by simp
  qed
  with eq sorted dist show ?thesis by blast
qed

theorem handles_increase_without_reuse_witness:
  "length (created (fst (run_calls initial_registry
      [Create 1 0 1, Destroy 1, Create 2 0 1, Create 0 0 0, Destroy 7]))) \<le> 2147483647 \<and>
   created (fst (run_calls initial_registry
      [Create 1 0 1, Destroy 1, Create 2 0 1, Create 0 0 0, Destroy 7])) = [1, 2] \<and>
   distinct (created (fst (run_calls initial_registry
      [Create 1 0 1, Destroy 1, Create 2 0 1, Create 0 0 0, Destroy 7])))"
proof -
  let ?cs = "[Create 1 0 1, Destroy 1, Create 2 0 1, Create 0 0 0, Destroy 7]"
  have run: "run_calls initial_registry ?cs =
      (fst (run_calls initial_registry ?cs), snd (run_calls initial_registry ?cs))"
    by simp
  have len: "length (created (fst (run_calls initial_registry ?cs))) = 2"
    by (simp only: length_created) (simp add: new_KalmanFilter_def int32_def)
  then have le: "length (created (fst (run_calls initial_registry ?cs))) \<le> 2147483647"
    by simp
  note all = handles_increase_without_reuse [OF run le]
  from all have "created (fst (run_calls initial_registry ?cs)) =
      map int [1..<Suc (length (created (fst (run_calls initial_registry ?cs))))]"
    by (rule conjunct1)
  then have "created (fst (run_calls initial_registry ?cs)) = map int [1..<Suc 2]"
    by (simp only: len)
  moreover have "map int [1..<Suc 2] = [1, 2]" by (simp add: upt_rec)
  moreover from all have "distinct (created (fst (run_calls initial_registry ?cs)))"
    by blast
  ultimately show ?thesis using le by (simp only: simp_thms)
qed

text \<open>
  Without the bound the claim fails, since the counter is a 32-bit \<^verbatim>\<open>int\<close>: in \<open>2^31\<close>
  rounds of create and destroy the last create returns \<open>- 2^31\<close>, below every handle
  before it; and the last create of \<open>2^32 + 1\<close> rounds returns the handle 1 again, which
  the first round destroyed.
\<close>

theorem handles_wrap_counterexample:
  "\<not> sorted_wrt (<) (created (fst (run_calls initial_registry (churn 1 2147483648)))) \<and>
   (\<exists>es1 es2. fst (run_calls initial_registry (churn 1 4294967297)) = es1 @ Created 1 # es2 \<and>
      Destroyed 1 \<in> set es1)"
proof
  have start: "g_next_handle initial_registry = 1" "int32 1 = 1"
    by (simp_all add: initial_registry_def int32_def)
  have trace: "fst (run_calls initial_registry (churn 1 k)) =
      concat (map (\<lambda>i. [Created (int32 (1 + int i)), Destroyed (int32 (1 + int i))]) [0..<k])"
    for k
    using churn_trace [of initial_registry k] start by simp
  show "\<not> sorted_wrt (<) (created (fst (run_calls initial_registry (churn 1 2147483648))))"
  proof
    let ?hs = "map (\<lambda>i. int32 (1 + int i)) [0..<2147483648]"
    assume "sorted_wrt (<) (created (fst (run_calls initial_registry (churn 1 2147483648))))"
    then have "sorted_wrt (<) ?hs"
      by (simp only: trace created_concat_pairs)
    then have "?hs ! 0 < ?hs ! 2147483647"
      by (rule sorted_wrt_nth_less) simp_all
    moreover have "?hs ! 0 = 1" "?hs ! 2147483647 = - 2147483648"
      by (simp_all add: int32_def del: upt_Suc)
    ultimately show False by simp
  qed
  let ?f = "\<lambda>i. [Created (int32 (1 + int i)), Destroyed (int32 (1 + int i))]"
  have e: "(4294967297 :: nat) = Suc 4294967296" by simp
  have "[0..<4294967297] = [0..<4294967296] @ [4294967296]"
    unfolding e by (rule upt_Suc_append) simp
  then have "fst (run_calls initial_registry (churn 1 4294967297)) =
      concat (map ?f [0..<4294967296]) @ ?f 4294967296"
    by (simp only: trace) simp
  moreover have "?f 4294967296 = [Created 1, Destroyed 1]"
    by (simp add: int32_def)
  moreover have "Destroyed 1 \<in> set (concat (map ?f [0..<4294967296]))"
  proof -
    have "0 \<in> set [0..<4294967296]" by simp
    moreover have "Destroyed 1 \<in> set (?f 0)" by (simp add: int32_def)
    ultimately show ?thesis unfolding set_concat set_map by blast
  qed
  ultimately show "\<exists>es1 es2.
      fst (run_calls initial_registry (churn 1 4294967297)) = es1 @ Created 1 # es2 \<and>
      Destroyed 1 \<in> set es1"
    by (intro exI [of _ "concat (map ?f [0..<4294967296])"] exI [of _ "[Destroyed 1]"]) simp
qed

section \<open>Creation\<close>

text \<open>
  The two outcomes of \<open>new_KalmanFilter\<close> for a square that wraps. When the wrapped
  product is not negative, the store it gives is so short that one of the writes
  \<^verbatim>\<open>result(i, i)\<close> of \<^verbatim>\<open>Matrix::identity\<close>, at the 32-bit index \<^verbatim>\<open>i * cols_ + i\<close>, is outside
  it; when the square fits, every such write is inside.
\<close>

lemma diagonal_write_outside:
  assumes d: "0 < d" "d < 2147483648"
    and s: "0 \<le> int32 (d * d)" "int32 (d * d) \<noteq> d * d"
  shows "\<exists>i. 0 \<le> i \<and> i < d \<and>
    \<not> (0 \<le> int32 (i * d + i) \<and> int32 (i * d + i) < int32 (d * d))"
proof -
  define s where "s = int32 (d * d)"
  define i where "i = (s + d) div (d + 1)"
  define v where "v = i * d + i"
  have s31: "s < 2147483648" unfolding s_def by (rule int32_bounds)
  have s0: "0 \<le> s" unfolding s_def by (rule s(1))
  have nn: "0 \<le> d * d" by simp
  have big: "2147483648 \<le> d * d"
  proof (rule ccontr)
    assume "\<not> 2147483648 \<le> d * d"
    with nn have "int32 (d * d) = d * d" by (intro int32_id) linarith+
    with s(2) show False by simp
  qed
  with s31 have lt: "s < d * d" by linarith
  have v: "v = (d + 1) * i" unfolding v_def by (simp add: algebra_simps)
  have d1: "0 < d + 1" using d(1) by linarith
  have m: "(s + d) mod (d + 1) < d + 1" "0 \<le> (s + d) mod (d + 1)"
    using d1 by (rule pos_mod_bound, rule pos_mod_sign)
  have split: "(d + 1) * i + (s + d) mod (d + 1) = s + d"
    unfolding i_def by (rule mult_div_mod_eq)
  have lo: "s \<le> v" using split m v by linarith
  have hi: "v \<le> s + d" using split m v by linarith
  have "0 \<le> s + d" using s0 d(1) by linarith
  then have i0: "0 \<le> i" unfolding i_def using d(1) by (intro pos_imp_zdiv_nonneg_iff [THEN iffD2]) linarith+
  have "d * (d + 1) = d * d + d" by (simp add: algebra_simps)
  with lt hi v have "(d + 1) * i < (d + 1) * d" by (simp add: algebra_simps)
  with d1 have i1: "i < d" by (simp only: mult_less_cancel_left_pos)
  have "\<not> (0 \<le> int32 v \<and> int32 v < s)"
  proof (cases "v < 2147483648")
    case True
    with lo s0 have "int32 v = v" by (intro int32_id) linarith+
    with lo show ?thesis by linarith
  next
    case False
    with hi s31 d(2) have "int32 v = v - 4294967296" by (intro int32_high) linarith+
    with hi s31 d(2) show ?thesis by linarith
  qed
  with i0 i1 show ?thesis unfolding v_def s_def by blast
qed


lemma diagonal_write_inside:
  assumes "0 \<le> i" "i < d" "d * d \<le> 2147483647"
  shows "0 \<le> int32 (i * d + i) \<and> int32 (i * d + i) < int32 (d * d)"
proof -
  have d: "0 < d" using assms(1,2) by linarith
  have "i * d \<le> (d - 1) * d" using assms(2) d by (intro mult_right_mono) linarith+
  then have up: "i * d + i < d * d" using assms(2) by (simp add: algebra_simps)
  have lo: "0 \<le> i * d + i" using assms(1) d by simp
  have nn: "0 \<le> d * d" by simp
  have "int32 (i * d + i) = i * d + i" using lo up assms(3) by (intro int32_id) linarith+
  moreover have "int32 (d * d) = d * d" using nn assms(3) by (intro int32_id) linarith+
  ultimately show ?thesis using lo up by simp
qed


lemma matrix_of_shape [simp]: "rows (matrix_of r c f) = int r" "cols (matrix_of r c f) = int c"
  by (simp_all add: matrix_of_def)

lemma matrix_of_wf: "wf_matrix (matrix_of r c f)"
  by (simp add: wf_matrix_def matrix_of_def)

lemma matrix_of_elem: "i < r \<Longrightarrow> j < c \<Longrightarrow> elem (matrix_of r c f) i j = f i j"
  using index_bound [of i r j c] by (simp add: elem_def matrix_of_def)

lemma matrix_ofI:
  assumes "wf_matrix M" "rows M = int r" "cols M = int c"
    and "\<And>i j. i < r \<Longrightarrow> j < c \<Longrightarrow> elem M i j = f i j"
  shows "M = matrix_of r c f"
  using assms by (intro matrix_eqI) (simp_all add: matrix_of_wf matrix_of_elem)

lemma diag_Matrix_eq:
  assumes "0 \<le> d"
  shows "fold (\<lambda>k result. set_elem result k k (v k)) [0..<nat d] (Matrix d d) =
         matrix_of (nat d) (nat d) (\<lambda>i j. if i = j then v i else 0)"
proof (rule matrix_ofI)
  show "wf_matrix (fold (\<lambda>k result. set_elem result k k (v k)) [0..<nat d] (Matrix d d))"
    using assms by (simp add: wf_matrix_def fold_set_elem_shape length_Matrix)
qed (use assms in \<open>simp_all add: fold_set_elem_shape diag_Matrix_elem\<close>)

lemma identity_eq: "0 \<le> d \<Longrightarrow> identity d = matrix_of (nat d) (nat d) (\<lambda>i j. if i = j then 1 else 0)"
  unfolding identity_def by (rule diag_Matrix_eq)





section \<open>The update recursion\<close>

lemma sum_delta_left:
  fixes f :: "nat \<Rightarrow> real"
  assumes "i < n"
  shows "(\<Sum>k<n. (if i = k then 1 else 0) * f k) = f i"
proof -
  have "(\<Sum>k<n. (if i = k then 1 else 0) * f k) = (\<Sum>k\<in>{..<n}. if k = i then f k else 0)"
    by (rule sum.cong) auto
  also have "\<dots> = f i" using assms by (simp add: sum.delta)
  finally show ?thesis .
qed

lemma sum_delta_right:
  fixes f :: "nat \<Rightarrow> real"
  assumes "j < n"
  shows "(\<Sum>k<n. f k * (if k = j then 1 else 0)) = f j"
proof -
  have "(\<Sum>k<n. f k * (if k = j then 1 else 0)) = (\<Sum>k\<in>{..<n}. if k = j then f k else 0)"
    by (rule sum.cong) auto
  also have "\<dots> = f j" using assms by (simp add: sum.delta)
  finally show ?thesis .
qed

lemma times_identity_left:
  assumes "wf_matrix A" "rows A = n"
  shows "operator_times (identity n) A = A"
proof (rule matrix_eqI)
  have n: "0 \<le> n" using assms by (simp add: wf_matrix_def)
  show "wf_matrix (operator_times (identity n) A)"
    using assms n by (intro times_wf) (simp_all add: identity_shape wf_matrix_def)
  show "wf_matrix A" by fact
  show "rows (operator_times (identity n) A) = rows A"
    "cols (operator_times (identity n) A) = cols A"
    using assms by (simp_all add: times_shape identity_shape)
  fix i j
  assume "i < nat (rows (operator_times (identity n) A))"
    "j < nat (cols (operator_times (identity n) A))"
  then have ij: "i < nat n" "j < nat (cols A)"
    using assms by (simp_all add: times_shape identity_shape)
  have "elem (operator_times (identity n) A) i j =
      (\<Sum>k<nat n. elem (identity n) i k * elem A k j)"
    using assms ij by (simp add: times_elem identity_shape)
  also have "\<dots> = (\<Sum>k<nat n. (if i = k then 1 else 0) * elem A k j)"
    using ij by (intro sum.cong) (simp_all add: identity_elem)
  also have "\<dots> = elem A i j" using ij(1) by (rule sum_delta_left)
  finally show "elem (operator_times (identity n) A) i j = elem A i j" .
qed

lemma times_identity_right:
  assumes "wf_matrix A" "cols A = n"
  shows "operator_times A (identity n) = A"
proof (rule matrix_eqI)
  have n: "0 \<le> n" using assms by (simp add: wf_matrix_def)
  show "wf_matrix (operator_times A (identity n))"
    using assms n by (intro times_wf) (simp_all add: identity_shape wf_matrix_def)
  show "wf_matrix A" by fact
  show "rows (operator_times A (identity n)) = rows A"
    "cols (operator_times A (identity n)) = cols A"
    using assms by (simp_all add: times_shape identity_shape)
  fix i j
  assume "i < nat (rows (operator_times A (identity n)))"
    "j < nat (cols (operator_times A (identity n)))"
  then have ij: "i < nat (rows A)" "j < nat n"
    using assms by (simp_all add: times_shape identity_shape)
  have "elem (operator_times A (identity n)) i j =
      (\<Sum>k<nat n. elem A i k * elem (identity n) k j)"
    using assms ij by (simp add: times_elem identity_shape)
  also have "\<dots> = (\<Sum>k<nat n. elem A i k * (if k = j then 1 else 0))"
    using ij by (intro sum.cong) (simp_all add: identity_elem)
  also have "\<dots> = elem A i j" using ij(2) by (rule sum_delta_right)
  finally show "elem (operator_times A (identity n)) i j = elem A i j" .
qed

lemma transpose_identity:
  assumes "0 \<le> n"
  shows "transpose_m (identity n) = identity n"
proof (rule matrix_eqI)
  show "wf_matrix (transpose_m (identity n))"
    using assms by (intro transpose_wf) (simp_all add: identity_shape)
  show "wf_matrix (identity n)" using assms by (rule identity_wf)
  show "rows (transpose_m (identity n)) = rows (identity n)"
    "cols (transpose_m (identity n)) = cols (identity n)"
    by (simp_all add: transpose_shape identity_shape)
  fix i j
  assume "i < nat (rows (transpose_m (identity n)))" "j < nat (cols (transpose_m (identity n)))"
  then have ij: "i < nat n" "j < nat n"
    by (simp_all add: transpose_shape identity_shape)
  then have "elem (transpose_m (identity n)) i j = elem (identity n) j i"
    by (intro transpose_elem) (simp_all add: identity_shape)
  with ij show "elem (transpose_m (identity n)) i j = elem (identity n) i j"
    by (simp add: identity_elem)
qed

lemma predicted_state_eq: "wf_filter kf \<Longrightarrow> predicted_state kf = state kf"
  by (simp add: predicted_state_def wf_filter_def times_identity_left)

lemma predicted_covariance_eq:
  assumes "wf_filter kf"
  shows "predicted_covariance kf = operator_plus (state_covariance kf) (process_noise kf)"
proof -
  let ?n = "dimensions kf"
  from assms have F: "transition_matrix kf = identity ?n" and n: "0 \<le> ?n"
    and P: "wf_matrix (state_covariance kf)" "rows (state_covariance kf) = ?n"
      "cols (state_covariance kf) = ?n"
    by (simp_all add: wf_filter_def)
  have "operator_times (operator_times (identity ?n) (state_covariance kf))
      (transpose_m (identity ?n)) = state_covariance kf"
    using P n by (simp add: times_identity_left times_identity_right transpose_identity)
  then show ?thesis by (simp add: predicted_covariance_def F)
qed

lemma inverse_loop_eq:
  "inverse_loop xs S M =
     (if \<exists>i\<in>set xs. elem S i i = 0 then Inl DivisionByZero
      else Inr (fold (\<lambda>i result. set_elem result i i (1 / elem S i i)) xs M))"
  by (induction xs arbitrary: M) auto


lemma matrix_of_cong:
  "(\<And>i j. i < r \<Longrightarrow> j < c \<Longrightarrow> f i j = g i j) \<Longrightarrow> matrix_of r c f = matrix_of r c g"
  by (rule matrix_ofI) (simp_all add: matrix_of_wf matrix_of_elem)

lemma matrix_of_elems: "wf_matrix M \<Longrightarrow> M = matrix_of (nat (rows M)) (nat (cols M)) (elem M)"
  by (rule matrix_ofI) (simp_all add: wf_matrix_def)

lemma plus_matrix_of:
  "operator_plus (matrix_of r c f) (matrix_of r c g) = matrix_of r c (\<lambda>i j. f i j + g i j)"
  by (rule matrix_ofI) (simp_all add: plus_wf plus_shape plus_elem matrix_of_elem)

lemma minus_matrix_of:
  "operator_minus (matrix_of r c f) (matrix_of r c g) = matrix_of r c (\<lambda>i j. f i j - g i j)"
  by (rule matrix_ofI) (simp_all add: minus_wf minus_shape minus_elem matrix_of_elem)

lemma times_matrix_of:
  "operator_times (matrix_of r m f) (matrix_of m c g) = matrix_of r c (spec_product m f g)"
proof (rule matrix_ofI)
  fix i j assume "i < r" "j < c"
  then have "elem (operator_times (matrix_of r m f) (matrix_of m c g)) i j =
      (\<Sum>k<m. elem (matrix_of r m f) i k * elem (matrix_of m c g) k j)"
    by (simp add: times_elem)
  also have "\<dots> = (\<Sum>k<m. f i k * g k j)"
    using \<open>i < r\<close> \<open>j < c\<close> by (intro sum.cong) (simp_all add: matrix_of_elem)
  finally show "elem (operator_times (matrix_of r m f) (matrix_of m c g)) i j =
      spec_product m f g i j"
    by (simp add: spec_product_def)
qed (simp_all add: times_wf times_shape)


lemma measurement_vector_eq:
  assumes "0 \<le> d"
  shows "measurement_vector d z = matrix_of (nat d) 1 (\<lambda>i j. z ! i)"
proof (rule matrix_ofI)
  let ?M = "Matrix d 1"
  show "wf_matrix (measurement_vector d z)"
    using assms by (simp add: measurement_vector_def wf_matrix_def fold_set_elem_shape length_Matrix)
  show "rows (measurement_vector d z) = int (nat d)" "cols (measurement_vector d z) = int 1"
    using assms by (simp_all add: measurement_vector_def fold_set_elem_shape)
  fix i j :: nat assume ij: "i < nat d" "j < 1"
  have "distinct (map (\<lambda>x. x * nat (cols ?M) + 0) [0..<nat d])"
    by (simp add: distinct_map inj_on_def)
  moreover have "i \<in> set [0..<nat d]" using ij by simp
  moreover have "i * nat (cols ?M) + 0 < length (data ?M)"
    using ij assms by (simp add: length_Matrix)
  ultimately have "elem (fold (\<lambda>x M. set_elem M x 0 (z ! x)) [0..<nat d] ?M) i 0 = z ! i"
    by (rule fold_set_elem_hit [where fi = "\<lambda>x. x" and fj = "\<lambda>x. 0"])
  with ij show "elem (measurement_vector d z) i j = z ! i"
    by (simp add: measurement_vector_def)
qed

lemma buffer_eq:
  assumes "length e = n"
  shows "fold (\<lambda>i e. e[i := f i]) [0..<n] e = map f [0..<n]"
proof (rule nth_equalityI)
  show "length (fold (\<lambda>i e. e[i := f i]) [0..<n] e) = length (map f [0..<n])"
    using assms by (simp add: fold_update_length)
  fix i assume "i < length (fold (\<lambda>i e. e[i := f i]) [0..<n] e)"
  then have i: "i < n" using assms by (simp add: fold_update_length)
  have "distinct (map (\<lambda>x. x) [0..<n])" by simp
  moreover have "i \<in> set [0..<n]" using i by simp
  moreover have "i < length e" using i assms by simp
  ultimately have "fold (\<lambda>x d. d[x := f x]) [0..<n] e ! i = f i"
    by (rule fold_update_hit [where g = "\<lambda>x. x"])
  with i show "fold (\<lambda>i e. e[i := f i]) [0..<n] e ! i = map f [0..<n] ! i" by simp
qed

lemma predicted_covariance_entries:
  assumes "wf_filter kf"
  shows "predicted_covariance kf =
    matrix_of (nat (dimensions kf)) (nat (dimensions kf))
      (\<lambda>i j. elem (state_covariance kf) i j + elem (process_noise kf) i j)"
proof -
  let ?n = "nat (dimensions kf)"
  have "state_covariance kf = matrix_of ?n ?n (elem (state_covariance kf))"
    using assms matrix_of_elems [of "state_covariance kf"] by (simp add: wf_filter_def)
  moreover have "process_noise kf = matrix_of ?n ?n (elem (process_noise kf))"
    using assms matrix_of_elems [of "process_noise kf"] by (simp add: wf_filter_def)
  ultimately have "predicted_covariance kf =
      operator_plus (matrix_of ?n ?n (elem (state_covariance kf)))
        (matrix_of ?n ?n (elem (process_noise kf)))"
    using assms by (simp add: predicted_covariance_eq)
  then show ?thesis by (simp only: plus_matrix_of)
qed

lemma innovation_covariance_entries:
  assumes "wf_filter kf"
  shows "innovation_covariance kf =
    matrix_of (nat (dimensions kf)) (nat (dimensions kf))
      (\<lambda>i j. elem (state_covariance kf) i j + elem (process_noise kf) i j +
             elem (measurement_noise kf) i j)"
proof -
  let ?n = "nat (dimensions kf)"
  have "measurement_noise kf = matrix_of ?n ?n (elem (measurement_noise kf))"
    using assms matrix_of_elems [of "measurement_noise kf"] by (simp add: wf_filter_def)
  then have "innovation_covariance kf =
      operator_plus
        (matrix_of ?n ?n (\<lambda>i j. elem (state_covariance kf) i j + elem (process_noise kf) i j))
        (matrix_of ?n ?n (elem (measurement_noise kf)))"
    using assms by (simp add: innovation_covariance_def predicted_covariance_entries)
  then show ?thesis by (simp only: plus_matrix_of)
qed

lemma update_as_spec:
  assumes "wf_filter kf" and "int (length z) = dimensions kf"
  shows "update kf z =
    (case spec_update (nat (dimensions kf)) (\<lambda>i. elem (state kf) i 0)
            (elem (state_covariance kf)) (elem (process_noise kf))
            (elem (measurement_noise kf)) (\<lambda>i. z ! i) of
       None \<Rightarrow> Inl DivisionByZero
     | Some (new_x, new_P) \<Rightarrow>
         Inr (Some (map new_x [0..<nat (dimensions kf)]),
              kf\<lparr>state := matrix_of (nat (dimensions kf)) 1 (\<lambda>i j. new_x i),
                 state_covariance := matrix_of (nat (dimensions kf)) (nat (dimensions kf)) new_P,
                 estimated_state := map new_x [0..<nat (dimensions kf)]\<rparr>))"
proof -
  let ?d = "dimensions kf" and ?n = "nat (dimensions kf)"
  let ?x = "\<lambda>i. elem (state kf) i 0"
  let ?P = "elem (state_covariance kf)" and ?Q = "elem (process_noise kf)"
  let ?R = "elem (measurement_noise kf)"
  let ?pP = "\<lambda>i j. ?P i j + ?Q i j"
  let ?S = "\<lambda>i j. ?pP i j + ?R i j"
  let ?Sinv = "\<lambda>i j. if i = j then 1 / ?S i i else 0"
  let ?K = "spec_product ?n ?pP ?Sinv"
  let ?y = "\<lambda>i. z ! i - ?x i"
  let ?new_x = "\<lambda>i. ?x i + (\<Sum>k<?n. ?K i k * ?y k)"
  let ?new_P = "spec_product ?n (\<lambda>i j. (if i = j then 1 else 0) - ?K i j) ?pP"
  from assms(1) have d: "0 \<le> ?d" "int ?n = ?d" by (simp_all add: wf_filter_def)
  have x: "state kf = matrix_of ?n 1 (\<lambda>i j. ?x i)"
  proof (rule matrix_ofI)
    fix i j :: nat assume "j < 1"
    then show "elem (state kf) i j = ?x i" by simp
  qed (use assms(1) in \<open>simp_all add: wf_filter_def\<close>)
  have P: "state_covariance kf = matrix_of ?n ?n ?P"
    using assms(1) matrix_of_elems [of "state_covariance kf"] by (simp add: wf_filter_def)
  have Q: "process_noise kf = matrix_of ?n ?n ?Q"
    using assms(1) matrix_of_elems [of "process_noise kf"] by (simp add: wf_filter_def)
  have R: "measurement_noise kf = matrix_of ?n ?n ?R"
    using assms(1) matrix_of_elems [of "measurement_noise kf"] by (simp add: wf_filter_def)
  have px: "predicted_state kf = matrix_of ?n 1 (\<lambda>i j. ?x i)"
    using assms(1) x by (simp add: predicted_state_eq)
  have "predicted_covariance kf = operator_plus (matrix_of ?n ?n ?P) (matrix_of ?n ?n ?Q)"
    using assms(1) P Q by (simp add: predicted_covariance_eq)
  then have pP: "predicted_covariance kf = matrix_of ?n ?n ?pP"
    by (simp only: plus_matrix_of)
  have "innovation_covariance kf = operator_plus (matrix_of ?n ?n ?pP) (matrix_of ?n ?n ?R)"
    using pP R by (simp add: innovation_covariance_def)
  then have S: "innovation_covariance kf = matrix_of ?n ?n ?S"
    by (simp only: plus_matrix_of)
  have Sd: "elem (innovation_covariance kf) i i = ?S i i" if "i < ?n" for i
    using that by (simp only: S matrix_of_elem)
  have zero: "(\<exists>i\<in>set [0..<?n]. elem (innovation_covariance kf) i i = 0) \<longleftrightarrow>
      (\<exists>i<?n. ?S i i = 0)"
    using Sd by auto
  have I: "identity ?d = matrix_of ?n ?n (\<lambda>i j. if i = j then 1 else 0)"
    using d(1) by (rule identity_eq)
  have z: "measurement_vector ?d z = matrix_of ?n 1 (\<lambda>i j. z ! i)"
    using d(1) by (rule measurement_vector_eq)
  have len: "length (estimated_state kf) = ?n"
    using assms(1) by (simp add: wf_filter_def)
  show ?thesis
  proof (cases "\<exists>i<?n. ?S i i = 0")
    case True
    then have "inv_innovation_covariance kf = Inl DivisionByZero"
      using zero by (simp add: inv_innovation_covariance_def inverse_loop_eq)
    moreover have "spec_update ?n ?x ?P ?Q ?R (\<lambda>i. z ! i) = None"
      using True by (simp add: spec_update_def Let_def)
    ultimately show ?thesis using assms(2) by (simp add: update_def)
  next
    case False
    have "fold (\<lambda>i result. set_elem result i i (1 / elem (innovation_covariance kf) i i))
        [0..<?n] (Matrix ?d ?d) =
        matrix_of ?n ?n (\<lambda>i j. if i = j then 1 / elem (innovation_covariance kf) i i else 0)"
      using d(1) by (rule diag_Matrix_eq)
    also have "\<dots> = matrix_of ?n ?n ?Sinv"
      by (rule matrix_of_cong) (simp add: Sd)
    finally have inv: "inv_innovation_covariance kf = Inr (matrix_of ?n ?n ?Sinv)"
      using False zero by (simp add: inv_innovation_covariance_def inverse_loop_eq)
    have K: "operator_times (predicted_covariance kf) (matrix_of ?n ?n ?Sinv) = matrix_of ?n ?n ?K"
      by (simp only: pP times_matrix_of)
    have y: "operator_minus (measurement_vector ?d z) (predicted_state kf) =
        matrix_of ?n 1 (\<lambda>i j. ?y i)"
      by (simp only: z px minus_matrix_of)
    have Ky: "operator_times (matrix_of ?n ?n ?K) (matrix_of ?n 1 (\<lambda>i j. ?y i)) =
        matrix_of ?n 1 (\<lambda>i j. \<Sum>k<?n. ?K i k * ?y k)"
      by (simp only: times_matrix_of) (simp add: spec_product_def)
    have nx: "operator_plus (predicted_state kf)
        (operator_times (matrix_of ?n ?n ?K) (matrix_of ?n 1 (\<lambda>i j. ?y i))) =
        matrix_of ?n 1 (\<lambda>i j. ?new_x i)"
      by (simp only: Ky px plus_matrix_of)
    have temp: "operator_minus (identity ?d) (matrix_of ?n ?n ?K) =
        matrix_of ?n ?n (\<lambda>i j. (if i = j then 1 else 0) - ?K i j)"
      by (simp only: I minus_matrix_of)
    have nP: "operator_times (matrix_of ?n ?n (\<lambda>i j. (if i = j then 1 else 0) - ?K i j))
        (predicted_covariance kf) = matrix_of ?n ?n ?new_P"
      by (simp only: pP times_matrix_of)
    have buf: "fold (\<lambda>i e. e[i := elem (matrix_of ?n 1 (\<lambda>i j. ?new_x i)) i 0]) [0..<?n]
        (estimated_state kf) = map ?new_x [0..<?n]"
      using len by (simp add: buffer_eq matrix_of_elem cong: map_cong)
    have spec: "spec_update ?n ?x ?P ?Q ?R (\<lambda>i. z ! i) = Some (?new_x, ?new_P)"
      using False by (simp add: spec_update_def Let_def)
    show ?thesis
      by (simp only: update_def assms(2) simp_thms if_False inv sum.case Let_def
          K y nx temp nP buf spec option.case prod.case)
  qed
qed


lemma KalmanFilter_wf: "0 \<le> d \<Longrightarrow> wf_filter (KalmanFilter d q r)"
  by (simp add: wf_filter_def KalmanFilter_def fold_set_elem_shape wf_matrix_def length_Matrix)

text \<open>
  Claim C1. For every filter with the shapes of the constructor and \<open>F\<close> the identity,
  and every measurement vector of that many entries, \<^verbatim>\<open>update\<close> computes the recursion of
  the specification: the predicted state is \<open>x\<close>, the predicted covariance is \<open>P + Q\<close>,
  \<open>S\<close> is \<open>P + Q + R\<close>, and the new \<open>x\<close> and \<open>P\<close> are those of \<open>spec_update\<close>, with \<open>S\<close>
  inverted on its diagonal only; the result returned is the new \<open>x\<close>. Where the
  recursion has no value, a diagonal entry of \<open>S\<close> being zero, \<^verbatim>\<open>update\<close> divides by zero.
\<close>

theorem update_refines_spec:
  assumes "wf_filter kf" and "int (length z) = dimensions kf"
  shows "predicted_state kf = state kf \<and>
    predicted_covariance kf = operator_plus (state_covariance kf) (process_noise kf) \<and>
    predicted_covariance kf =
      matrix_of (nat (dimensions kf)) (nat (dimensions kf))
        (\<lambda>i j. elem (state_covariance kf) i j + elem (process_noise kf) i j) \<and>
    innovation_covariance kf =
      matrix_of (nat (dimensions kf)) (nat (dimensions kf))
        (\<lambda>i j. elem (state_covariance kf) i j + elem (process_noise kf) i j +
               elem (measurement_noise kf) i j) \<and>
    update kf z =
    (case spec_update (nat (dimensions kf)) (\<lambda>i. elem (state kf) i 0)
            (elem (state_covariance kf)) (elem (process_noise kf))
            (elem (measurement_noise kf)) (\<lambda>i. z ! i) of
       None \<Rightarrow> Inl DivisionByZero
     | Some (new_x, new_P) \<Rightarrow>
         Inr (Some (map new_x [0..<nat (dimensions kf)]),
              kf\<lparr>state := matrix_of (nat (dimensions kf)) 1 (\<lambda>i j. new_x i),
                 state_covariance := matrix_of (nat (dimensions kf)) (nat (dimensions kf)) new_P,
                 estimated_state := map new_x [0..<nat (dimensions kf)]\<rparr>))"
proof (intro conjI)
  show "predicted_state kf = state kf"
    using assms(1) by (rule predicted_state_eq)
  show "predicted_covariance kf = operator_plus (state_covariance kf) (process_noise kf)"
    using assms(1) by (rule predicted_covariance_eq)
  show "predicted_covariance kf =
      matrix_of (nat (dimensions kf)) (nat (dimensions kf))
        (\<lambda>i j. elem (state_covariance kf) i j + elem (process_noise kf) i j)"
    using assms(1) by (rule predicted_covariance_entries)
  show "innovation_covariance kf =
      matrix_of (nat (dimensions kf)) (nat (dimensions kf))
        (\<lambda>i j. elem (state_covariance kf) i j + elem (process_noise kf) i j +
               elem (measurement_noise kf) i j)"
    using assms(1) by (rule innovation_covariance_entries)
  show "update kf z =
    (case spec_update (nat (dimensions kf)) (\<lambda>i. elem (state kf) i 0)
            (elem (state_covariance kf)) (elem (process_noise kf))
            (elem (measurement_noise kf)) (\<lambda>i. z ! i) of
       None \<Rightarrow> Inl DivisionByZero
     | Some (new_x, new_P) \<Rightarrow>
         Inr (Some (map new_x [0..<nat (dimensions kf)]),
              kf\<lparr>state := matrix_of (nat (dimensions kf)) 1 (\<lambda>i j. new_x i),
                 state_covariance := matrix_of (nat (dimensions kf)) (nat (dimensions kf)) new_P,
                 estimated_state := map new_x [0..<nat (dimensions kf)]\<rparr>))"
    using assms by (rule update_as_spec)
qed

theorem update_refines_spec_witness:
  "wf_filter (KalmanFilter 1 (1 / 1000) (1 / 10)) \<and>
   int (length [1 :: real]) = dimensions (KalmanFilter 1 (1 / 1000) (1 / 10)) \<and>
   update (KalmanFilter 1 (1 / 1000) (1 / 10)) [1] =
     Inr (Some [1001 / 1101],
          (KalmanFilter 1 (1 / 1000) (1 / 10))
            \<lparr>state := \<lparr>rows = 1, cols = 1, data = [1001 / 1101]\<rparr>,
             state_covariance := \<lparr>rows = 1, cols = 1, data = [1001 / 11010]\<rparr>,
             estimated_state := [1001 / 1101]\<rparr>)"
proof -
  let ?kf = "KalmanFilter 1 (1 / 1000) (1 / 10)"
  have wf: "wf_filter ?kf" by (rule KalmanFilter_wf) simp
  have len: "int (length [1 :: real]) = dimensions ?kf" by simp
  have entries: "elem (state ?kf) 0 0 = 0" "elem (state_covariance ?kf) 0 0 = 1"
    "elem (process_noise ?kf) 0 0 = 1 / 1000" "elem (measurement_noise ?kf) 0 0 = 1 / 10"
    by (simp_all add: KalmanFilter_def elem_def set_elem_def Matrix_def)
  from update_refines_spec [OF wf len]
  have "update ?kf [1] =
    (case spec_update (nat (dimensions ?kf)) (\<lambda>i. elem (state ?kf) i 0)
            (elem (state_covariance ?kf)) (elem (process_noise ?kf))
            (elem (measurement_noise ?kf)) (\<lambda>i. [1] ! i) of
       None \<Rightarrow> Inl DivisionByZero
     | Some (new_x, new_P) \<Rightarrow>
         Inr (Some (map new_x [0..<nat (dimensions ?kf)]),
              ?kf\<lparr>state := matrix_of (nat (dimensions ?kf)) 1 (\<lambda>i j. new_x i),
                 state_covariance :=
                   matrix_of (nat (dimensions ?kf)) (nat (dimensions ?kf)) new_P,
                 estimated_state := map new_x [0..<nat (dimensions ?kf)]\<rparr>))"
    by (elim conjE)
  then show ?thesis
    using wf len
    by (simp add: spec_update_def spec_product_def Let_def entries matrix_of_def)
qed


section \<open>Diagonal covariances\<close>

lemma sum_single:
  fixes h :: "nat \<Rightarrow> real"
  assumes "j < n" and "\<And>k. k < n \<Longrightarrow> k \<noteq> j \<Longrightarrow> h k = 0"
  shows "(\<Sum>k<n. h k) = h j"
proof -
  have "(\<Sum>k<n. h k) = (\<Sum>k\<in>{..<n}. if k = j then h j else 0)"
    using assms(2) by (intro sum.cong) auto
  also have "\<dots> = h j" using assms(1) by (simp add: sum.delta)
  finally show ?thesis .
qed

lemma diagonal_product_right:
  assumes "j < n"
  shows "spec_product n A (\<lambda>i j. if i = j then d i else 0) i j = A i j * d j"
proof -
  have "(\<Sum>k<n. A i k * (if k = j then d k else 0)) = A i j * (if j = j then d j else 0)"
    by (rule sum_single) (use assms in auto)
  then show ?thesis by (simp add: spec_product_def)
qed

lemma diagonal_product_left:
  assumes "j < n" and "\<And>k. k < n \<Longrightarrow> k \<noteq> j \<Longrightarrow> B k j = 0"
  shows "spec_product n A B i j = A i j * B j j"
proof -
  have "(\<Sum>k<n. A i k * B k j) = A i j * B j j"
    by (rule sum_single) (use assms in auto)
  then show ?thesis by (simp add: spec_product_def)
qed

lemma spec_update_diagonal:
  assumes off: "\<And>i j. i < n \<Longrightarrow> j < n \<Longrightarrow> i \<noteq> j \<Longrightarrow> P i j + Q i j = 0"
    and nz: "\<forall>i<n. P i i + Q i i + R i i \<noteq> 0"
  shows "\<exists>new_x new_P. spec_update n x P Q R z = Some (new_x, new_P) \<and>
    (\<forall>i<n. new_x i = x i + (P i i + Q i i) / (P i i + Q i i + R i i) * (z i - x i)) \<and>
    (\<forall>i<n. \<forall>j<n. new_P i j =
       (if i = j then (1 - (P i i + Q i i) / (P i i + Q i i + R i i)) * (P i i + Q i i) else 0))"
proof -
  let ?pP = "\<lambda>i j. P i j + Q i j"
  let ?d = "\<lambda>i. 1 / (?pP i i + R i i)"
  let ?Sinv = "\<lambda>i j. if i = j then ?d i else 0"
  let ?K = "spec_product n ?pP ?Sinv"
  let ?new_x = "\<lambda>i. x i + (\<Sum>k<n. ?K i k * (z k - x k))"
  let ?new_P = "spec_product n (\<lambda>i j. (if i = j then 1 else 0) - ?K i j) ?pP"
  have K: "?K i j = ?pP i j * ?d j" if "j < n" for i j
    using that by (rule diagonal_product_right)
  have Koff: "?K i k = 0" if "i < n" "k < n" "k \<noteq> i" for i k
    using that off [of i k] by (simp add: K)
  have x: "?new_x i = x i + ?pP i i / (?pP i i + R i i) * (z i - x i)" if "i < n" for i
  proof -
    have "(\<Sum>k<n. ?K i k * (z k - x k)) = ?K i i * (z i - x i)"
      using that Koff [of i] by (intro sum_single) simp_all
    then show ?thesis using that by (simp add: K)
  qed
  have P: "?new_P i j = (if i = j then (1 - ?pP i i / (?pP i i + R i i)) * ?pP i i else 0)"
    if "i < n" "j < n" for i j
  proof -
    have "?new_P i j = ((if i = j then 1 else 0) - ?K i j) * ?pP j j"
      using that(2) off by (intro diagonal_product_left) simp_all
    then show ?thesis using that off [of i j] by (simp add: K)
  qed
  have "spec_update n x P Q R z = Some (?new_x, ?new_P)"
    using nz by (simp add: spec_update_def Let_def)
  with x P show ?thesis by blast
qed


lemma diagonal_entries:
  "diagonal M \<Longrightarrow> i < nat (rows M) \<Longrightarrow> j < nat (cols M) \<Longrightarrow> i \<noteq> j \<Longrightarrow> elem M i j = 0"
  by (simp add: diagonal_def)

lemma diagonal_matrix_of:
  "(\<And>i j. i < r \<Longrightarrow> j < c \<Longrightarrow> i \<noteq> j \<Longrightarrow> f i j = 0) \<Longrightarrow> diagonal (matrix_of r c f)"
  by (simp add: diagonal_def matrix_of_elem)

lemma update_diagonal:
  assumes wf: "wf_filter kf" and len: "int (length z) = dimensions kf"
    and dP: "diagonal (state_covariance kf)" and dQ: "diagonal (process_noise kf)"
    and nz: "\<forall>i<nat (dimensions kf).
      elem (state_covariance kf) i i + elem (process_noise kf) i i +
      elem (measurement_noise kf) i i \<noteq> 0"
  shows "update kf z =
    Inr (Some (map (\<lambda>i. elem (state kf) i 0 +
                 (elem (state_covariance kf) i i + elem (process_noise kf) i i) /
                 (elem (state_covariance kf) i i + elem (process_noise kf) i i +
                  elem (measurement_noise kf) i i) * (z ! i - elem (state kf) i 0))
               [0..<nat (dimensions kf)]),
         kf\<lparr>state := matrix_of (nat (dimensions kf)) 1
               (\<lambda>i j. elem (state kf) i 0 +
                 (elem (state_covariance kf) i i + elem (process_noise kf) i i) /
                 (elem (state_covariance kf) i i + elem (process_noise kf) i i +
                  elem (measurement_noise kf) i i) * (z ! i - elem (state kf) i 0)),
            state_covariance := matrix_of (nat (dimensions kf)) (nat (dimensions kf))
               (\<lambda>i j. if i = j
                  then (1 - (elem (state_covariance kf) i i + elem (process_noise kf) i i) /
                         (elem (state_covariance kf) i i + elem (process_noise kf) i i +
                          elem (measurement_noise kf) i i)) *
                       (elem (state_covariance kf) i i + elem (process_noise kf) i i)
                  else 0),
            estimated_state := map (\<lambda>i. elem (state kf) i 0 +
                 (elem (state_covariance kf) i i + elem (process_noise kf) i i) /
                 (elem (state_covariance kf) i i + elem (process_noise kf) i i +
                  elem (measurement_noise kf) i i) * (z ! i - elem (state kf) i 0))
               [0..<nat (dimensions kf)]\<rparr>)"
    (is "_ = Inr (Some (map ?nx _), kf\<lparr>state := matrix_of ?n 1 _,
          state_covariance := matrix_of ?n ?n ?nP, estimated_state := _\<rparr>)")
proof -
  let ?x = "\<lambda>i. elem (state kf) i 0"
  let ?P = "elem (state_covariance kf)" and ?Q = "elem (process_noise kf)"
  let ?R = "elem (measurement_noise kf)"
  from wf have shapes: "nat (rows (state_covariance kf)) = ?n" "nat (cols (state_covariance kf)) = ?n"
    "nat (rows (process_noise kf)) = ?n" "nat (cols (process_noise kf)) = ?n"
    by (simp_all add: wf_filter_def)
  have off: "?P i j + ?Q i j = 0" if "i < ?n" "j < ?n" "i \<noteq> j" for i j
    using that diagonal_entries [OF dP, of i j] diagonal_entries [OF dQ, of i j] shapes by simp
  from spec_update_diagonal [of ?n ?P ?Q ?R ?x "\<lambda>i. z ! i", OF off nz]
  obtain new_x new_P where
    spec: "spec_update ?n ?x ?P ?Q ?R (\<lambda>i. z ! i) = Some (new_x, new_P)"
    and x: "\<And>i. i < ?n \<Longrightarrow> new_x i = ?nx i"
    and P: "\<And>i j. i < ?n \<Longrightarrow> j < ?n \<Longrightarrow> new_P i j = ?nP i j"
    by blast
  have 1: "matrix_of ?n 1 (\<lambda>i j. new_x i) = matrix_of ?n 1 (\<lambda>i j. ?nx i)"
    by (rule matrix_of_cong) (rule x)
  have 2: "matrix_of ?n ?n new_P = matrix_of ?n ?n ?nP"
    by (rule matrix_of_cong) (rule P)
  have 3: "map new_x [0..<?n] = map ?nx [0..<?n]"
    by (rule map_cong) (simp_all add: x)
  show ?thesis
    by (simp only: update_as_spec [OF wf len] spec option.case prod.case 1 2 3)
qed

lemma update_fault_iff:
  assumes "wf_filter kf" and "int (length z) = dimensions kf"
  shows "update kf z = Inl DivisionByZero \<longleftrightarrow>
    (\<exists>i<nat (dimensions kf). elem (innovation_covariance kf) i i = 0)"
proof -
  let ?n = "nat (dimensions kf)"
  have "elem (innovation_covariance kf) i i =
      elem (state_covariance kf) i i + elem (process_noise kf) i i +
      elem (measurement_noise kf) i i" if "i < ?n" for i
    using that by (simp add: innovation_covariance_entries [OF assms(1)] matrix_of_elem)
  then have "(\<exists>i<?n. elem (innovation_covariance kf) i i = 0) \<longleftrightarrow>
      (\<exists>i<?n. elem (state_covariance kf) i i + elem (process_noise kf) i i +
        elem (measurement_noise kf) i i = 0)"
    by auto
  then show ?thesis
    by (simp add: update_as_spec [OF assms] spec_update_def Let_def)
qed


lemma update_keeps_invariant:
  assumes wf: "wf_filter kf" and dP: "diagonal (state_covariance kf)"
    and dQ: "diagonal (process_noise kf)" and u: "update kf z = Inr (r, kf')"
  shows "wf_filter kf' \<and> dimensions kf' = dimensions kf \<and>
    process_noise kf' = process_noise kf \<and> measurement_noise kf' = measurement_noise kf \<and>
    diagonal (state_covariance kf')"
proof (cases "int (length z) = dimensions kf")
  case False
  then have "update kf z = Inr (None, kf)" by (simp add: update_def)
  with u wf dP show ?thesis by simp
next
  case True
  let ?n = "nat (dimensions kf)"
  have "\<not> (\<exists>i<?n. elem (state_covariance kf) i i + elem (process_noise kf) i i +
      elem (measurement_noise kf) i i = 0)"
  proof
    assume "\<exists>i<?n. elem (state_covariance kf) i i + elem (process_noise kf) i i +
      elem (measurement_noise kf) i i = 0"
    then have "update kf z = Inl DivisionByZero"
      by (simp add: update_as_spec [OF wf True] spec_update_def Let_def)
    with u show False by simp
  qed
  then have nz: "\<forall>i<?n. elem (state_covariance kf) i i + elem (process_noise kf) i i +
      elem (measurement_noise kf) i i \<noteq> 0"
    by simp
  from wf have d: "int ?n = dimensions kf" by (simp add: wf_filter_def)
  note eq = u [unfolded update_diagonal [OF wf True dP dQ nz]]
  from eq have kf': "kf' = kf\<lparr>state := state kf', state_covariance := state_covariance kf',
      estimated_state := estimated_state kf'\<rparr>"
    by auto
  from eq obtain f g where st: "state kf' = matrix_of ?n 1 f"
    and cov: "state_covariance kf' = matrix_of ?n ?n (\<lambda>i j. if i = j then g i else 0)"
    and est: "length (estimated_state kf') = ?n"
    and rest: "dimensions kf' = dimensions kf" "process_noise kf' = process_noise kf"
      "measurement_noise kf' = measurement_noise kf" "transition_matrix kf' = transition_matrix kf"
      "measurement_matrix kf' = measurement_matrix kf"
    by auto
  have "diagonal (state_covariance kf')"
    unfolding cov by (rule diagonal_matrix_of) simp
  moreover from wf have old: "0 \<le> dimensions kf"
    "wf_matrix (process_noise kf)" "rows (process_noise kf) = dimensions kf"
    "cols (process_noise kf) = dimensions kf"
    "wf_matrix (measurement_noise kf)" "rows (measurement_noise kf) = dimensions kf"
    "cols (measurement_noise kf) = dimensions kf"
    "transition_matrix kf = identity (dimensions kf)"
    "measurement_matrix kf = identity (dimensions kf)"
    by (simp_all add: wf_filter_def)
  then have "wf_filter kf'"
    by (simp add: wf_filter_def st cov est rest matrix_of_wf)
  ultimately show ?thesis using rest by simp
qed

lemma updates_keep_invariant:
  assumes "wf_filter kf" "diagonal (state_covariance kf)" "diagonal (process_noise kf)"
    and "updates kf zs = Inr (rs, kf')"
  shows "wf_filter kf' \<and> dimensions kf' = dimensions kf \<and>
    process_noise kf' = process_noise kf \<and> measurement_noise kf' = measurement_noise kf \<and>
    diagonal (state_covariance kf')"
  using assms
proof (induction zs arbitrary: kf rs)
  case Nil
  then show ?case by simp
next
  case (Cons z zs)
  from Cons.prems(4) obtain r kf1 rs1 where u: "update kf z = Inr (r, kf1)"
    and us: "updates kf1 zs = Inr (rs1, kf')"
    by (auto split: sum.splits)
  from update_keeps_invariant [OF Cons.prems(1-3) u]
  have 1: "wf_filter kf1" "dimensions kf1 = dimensions kf" "process_noise kf1 = process_noise kf"
    "measurement_noise kf1 = measurement_noise kf" "diagonal (state_covariance kf1)"
    by simp_all
  with Cons.prems(3) have "diagonal (process_noise kf1)" by simp
  from Cons.IH [OF 1(1) 1(5) this us] 1 show ?case by simp
qed


lemma KalmanFilter_members:
  assumes "0 \<le> d"
  shows "process_noise (KalmanFilter d q r) =
      matrix_of (nat d) (nat d) (\<lambda>i j. if i = j then q else 0)"
    and "measurement_noise (KalmanFilter d q r) =
      matrix_of (nat d) (nat d) (\<lambda>i j. if i = j then r else 0)"
    and "state_covariance (KalmanFilter d q r) =
      matrix_of (nat d) (nat d) (\<lambda>i j. if i = j then 1 else 0)"
  using assms by (simp_all add: KalmanFilter_def diag_Matrix_eq)

lemma KalmanFilter_diagonal:
  assumes "0 \<le> d"
  shows "diagonal (process_noise (KalmanFilter d q r))"
    and "diagonal (measurement_noise (KalmanFilter d q r))"
    and "diagonal (state_covariance (KalmanFilter d q r))"
  unfolding KalmanFilter_members [OF assms] by (rule diagonal_matrix_of; simp)+




lemma gain_complement_nonneg:
  fixes a r :: real
  assumes "0 \<le> a" "0 < r"
  shows "0 \<le> (1 - a / (a + r)) * a"
proof -
  have "a / (a + r) \<le> 1" using assms by (simp add: divide_le_eq_1)
  then have "0 \<le> 1 - a / (a + r)" by simp
  then show ?thesis using assms(1) by (rule mult_nonneg_nonneg)
qed

lemma update_keeps_nonneg:
  assumes wf: "wf_filter kf" and dP: "diagonal (state_covariance kf)"
    and dQ: "diagonal (process_noise kf)"
    and P: "\<forall>i<nat (dimensions kf). 0 \<le> elem (state_covariance kf) i i"
    and Q: "\<forall>i<nat (dimensions kf). 0 \<le> elem (process_noise kf) i i"
    and R: "\<forall>i<nat (dimensions kf). 0 < elem (measurement_noise kf) i i"
  shows "\<exists>r kf'. update kf z = Inr (r, kf') \<and>
    (\<forall>i<nat (dimensions kf). 0 \<le> elem (state_covariance kf') i i)"
proof (cases "int (length z) = dimensions kf")
  case False
  then have "update kf z = Inr (None, kf)" by (simp add: update_def)
  with P show ?thesis by simp
next
  case True
  let ?n = "nat (dimensions kf)"
  let ?a = "\<lambda>i. elem (state_covariance kf) i i + elem (process_noise kf) i i"
  have a: "0 \<le> ?a i" and r: "0 < elem (measurement_noise kf) i i" if "i < ?n" for i
    using that P Q R by (simp_all add: add_nonneg_nonneg)
  have nz: "\<forall>i<?n. ?a i + elem (measurement_noise kf) i i \<noteq> 0"
  proof (intro allI impI)
    fix i assume "i < ?n"
    with a [of i] r [of i] have "0 < ?a i + elem (measurement_noise kf) i i"
      by (intro add_nonneg_pos)
    then show "?a i + elem (measurement_noise kf) i i \<noteq> 0" by simp
  qed
  note eq = update_diagonal [OF wf True dP dQ nz]
  have "0 \<le> elem (matrix_of ?n ?n (\<lambda>i j. if i = j
      then (1 - ?a i / (?a i + elem (measurement_noise kf) i i)) * ?a i else 0)) i i"
    if "i < ?n" for i
    using that gain_complement_nonneg [OF a [OF that] r [OF that]]
    by (simp add: matrix_of_elem)
  then show ?thesis unfolding eq by simp
qed

lemma updates_never_fault:
  assumes "wf_filter kf" "diagonal (state_covariance kf)" "diagonal (process_noise kf)"
    and "\<forall>i<nat (dimensions kf). 0 \<le> elem (state_covariance kf) i i"
    and "\<forall>i<nat (dimensions kf). 0 \<le> elem (process_noise kf) i i"
    and "\<forall>i<nat (dimensions kf). 0 < elem (measurement_noise kf) i i"
  shows "\<exists>rs kf'. updates kf zs = Inr (rs, kf') \<and>
    (\<forall>i<nat (dimensions kf). 0 \<le> elem (state_covariance kf') i i)"
  using assms
proof (induction zs arbitrary: kf)
  case Nil
  then show ?case by simp
next
  case (Cons z zs)
  from update_keeps_nonneg [OF Cons.prems]
  obtain r kf1 where u: "update kf z = Inr (r, kf1)"
    and P1: "\<forall>i<nat (dimensions kf). 0 \<le> elem (state_covariance kf1) i i"
    by blast
  from update_keeps_invariant [OF Cons.prems(1-3) u]
  have 1: "wf_filter kf1" "dimensions kf1 = dimensions kf" "process_noise kf1 = process_noise kf"
    "measurement_noise kf1 = measurement_noise kf" "diagonal (state_covariance kf1)"
    by simp_all
  have "\<exists>rs kf'. updates kf1 zs = Inr (rs, kf') \<and>
      (\<forall>i<nat (dimensions kf1). 0 \<le> elem (state_covariance kf') i i)"
    using 1 P1 Cons.prems by (intro Cons.IH) simp_all
  then obtain rs kf' where "updates kf1 zs = Inr (rs, kf')"
    and "\<forall>i<nat (dimensions kf). 0 \<le> elem (state_covariance kf') i i"
    using 1(2) by auto
  with u show ?case by simp
qed

lemma created_filter_never_faults:
  assumes "0 \<le> n" "0 \<le> q" "0 < r"
  shows "\<exists>rs kf. updates (KalmanFilter n q r) zs = Inr (rs, kf) \<and>
    (\<forall>i<nat n. 0 < elem (innovation_covariance kf) i i)"
proof -
  let ?kf0 = "KalmanFilter n q r"
  note m = KalmanFilter_members [OF assms(1), of q r]
  have "\<exists>rs kf'. updates ?kf0 zs = Inr (rs, kf') \<and>
      (\<forall>i<nat (dimensions ?kf0). 0 \<le> elem (state_covariance kf') i i)"
    using assms
    by (intro updates_never_fault KalmanFilter_wf KalmanFilter_diagonal)
      (simp_all add: m matrix_of_elem)
  then obtain rs kf where run: "updates ?kf0 zs = Inr (rs, kf)"
    and P: "\<forall>i<nat n. 0 \<le> elem (state_covariance kf) i i"
    by auto
  from updates_keep_invariant [OF KalmanFilter_wf [OF assms(1)]
      KalmanFilter_diagonal(3) [OF assms(1)] KalmanFilter_diagonal(1) [OF assms(1)] run]
  have inv: "wf_filter kf" "dimensions kf = n" "process_noise kf = process_noise ?kf0"
    "measurement_noise kf = measurement_noise ?kf0"
    by simp_all
  have "0 < elem (innovation_covariance kf) i i" if "i < nat n" for i
  proof -
    have "elem (innovation_covariance kf) i i = elem (state_covariance kf) i i + q + r"
      using that inv by (simp add: innovation_covariance_entries [OF inv(1)] matrix_of_elem m)
    moreover have "0 \<le> elem (state_covariance kf) i i" using P that by simp
    ultimately show ?thesis using assms(2,3) by simp
  qed
  with run show ?thesis by blast
qed






section \<open>Division by zero\<close>

text \<open>
  Claim C8. On a well-formed filter and a measurement vector of the right length,
  \<^verbatim>\<open>update\<close> divides by zero exactly when some diagonal entry of the innovation
  covariance is zero: nothing in \<^verbatim>\<open>update\<close> returns before the division. For a filter
  created with \<open>n > 0\<close>, \<open>process_noise \<ge> 0\<close> and \<open>measurement_noise > 0\<close>, every sequence
  of updates runs to its end and every diagonal entry of \<open>S\<close> of the filter reached is
  strictly positive.
\<close>

theorem division_by_zero_exactly_on_zero_pivot:
  "(wf_filter kf \<and> int (length z) = dimensions kf \<longrightarrow>
      (update kf z = Inl DivisionByZero \<longleftrightarrow>
       (\<exists>i<nat (dimensions kf). elem (innovation_covariance kf) i i = 0))) \<and>
   (0 < n \<and> 0 \<le> q \<and> 0 < r \<longrightarrow>
      (\<exists>rs kf'. updates (KalmanFilter n q r) zs = Inr (rs, kf') \<and>
         (\<forall>i<nat n. 0 < elem (innovation_covariance kf') i i)))"
proof (intro conjI impI)
  assume "wf_filter kf \<and> int (length z) = dimensions kf"
  then show "update kf z = Inl DivisionByZero \<longleftrightarrow>
      (\<exists>i<nat (dimensions kf). elem (innovation_covariance kf) i i = 0)"
    by (intro update_fault_iff) simp_all
next
  assume "0 < n \<and> 0 \<le> q \<and> 0 < r"
  then show "\<exists>rs kf'. updates (KalmanFilter n q r) zs = Inr (rs, kf') \<and>
      (\<forall>i<nat n. 0 < elem (innovation_covariance kf') i i)"
    by (intro created_filter_never_faults) simp_all
qed

theorem division_by_zero_exactly_on_zero_pivot_witness:
  "wf_filter (KalmanFilter 1 0 (- 1)) \<and>
   int (length [5 :: real]) = dimensions (KalmanFilter 1 0 (- 1)) \<and>
   elem (innovation_covariance (KalmanFilter 1 0 (- 1))) 0 0 = 0 \<and>
   update (KalmanFilter 1 0 (- 1)) [5] = Inl DivisionByZero \<and>
   (\<exists>rs kf'. updates (KalmanFilter 1 (1 / 1000) (1 / 10)) [[1], [1]] = Inr (rs, kf') \<and>
      0 < elem (innovation_covariance kf') 0 0)"
proof -
  let ?kf = "KalmanFilter 1 0 (- 1)"
  have wf: "wf_filter ?kf" by (rule KalmanFilter_wf) simp
  have len: "int (length [5 :: real]) = dimensions ?kf" by simp
  have S: "elem (innovation_covariance ?kf) 0 0 = 0"
    by (simp add: innovation_covariance_entries [OF wf] matrix_of_elem KalmanFilter_members)
  then have ex: "\<exists>i<nat (dimensions ?kf). elem (innovation_covariance ?kf) i i = 0"
    by (intro exI [of _ 0]) simp
  have pre: "(0 :: int) < 1 \<and> (0 :: real) \<le> 1 / 1000 \<and> (0 :: real) < 1 / 10" by simp
  from division_by_zero_exactly_on_zero_pivot
    [of ?kf "[5]" 1 "1 / 1000" "1 / 10" "[[1], [1]]"] wf len ex pre
  have "update ?kf [5] = Inl DivisionByZero"
    and "\<exists>rs kf'. updates (KalmanFilter 1 (1 / 1000) (1 / 10)) [[1], [1]] = Inr (rs, kf') \<and>
      (\<forall>i<nat 1. 0 < elem (innovation_covariance kf') i i)"
    by blast+
  with wf len S show ?thesis by auto
qed

section \<open>A constant measurement\<close>

lemma KalmanFilter_scalar:
  "KalmanFilter 1 q r =
     \<lparr>dimensions = 1, state = \<lparr>rows = 1, cols = 1, data = [0]\<rparr>,
      process_noise = \<lparr>rows = 1, cols = 1, data = [q]\<rparr>,
      measurement_noise = \<lparr>rows = 1, cols = 1, data = [r]\<rparr>,
      state_covariance = \<lparr>rows = 1, cols = 1, data = [1]\<rparr>,
      transition_matrix = identity 1, measurement_matrix = identity 1,
      estimated_state = [0]\<rparr>"
  by (simp add: KalmanFilter_def Matrix_def set_elem_def)

lemma scalar_update:
  assumes "p + q + r \<noteq> 0" and "length e = 1"
  shows "update
     \<lparr>dimensions = 1, state = \<lparr>rows = 1, cols = 1, data = [x]\<rparr>,
      process_noise = \<lparr>rows = 1, cols = 1, data = [q]\<rparr>,
      measurement_noise = \<lparr>rows = 1, cols = 1, data = [r]\<rparr>,
      state_covariance = \<lparr>rows = 1, cols = 1, data = [p]\<rparr>,
      transition_matrix = identity 1, measurement_matrix = identity 1,
      estimated_state = e\<rparr> [z] =
     Inr (Some [x + (p + q) / (p + q + r) * (z - x)],
       \<lparr>dimensions = 1,
        state = \<lparr>rows = 1, cols = 1, data = [x + (p + q) / (p + q + r) * (z - x)]\<rparr>,
        process_noise = \<lparr>rows = 1, cols = 1, data = [q]\<rparr>,
        measurement_noise = \<lparr>rows = 1, cols = 1, data = [r]\<rparr>,
        state_covariance =
          \<lparr>rows = 1, cols = 1, data = [(1 - (p + q) / (p + q + r)) * (p + q)]\<rparr>,
        transition_matrix = identity 1, measurement_matrix = identity 1,
        estimated_state = [x + (p + q) / (p + q + r) * (z - x)]\<rparr>)"
  (is "update ?kf _ = _")
proof -
  have wf: "wf_filter ?kf" using assms(2) by (simp add: wf_filter_def wf_matrix_def)
  have len: "int (length [z]) = dimensions ?kf" by simp
  have dP: "diagonal (state_covariance ?kf)" and dQ: "diagonal (process_noise ?kf)"
    by (simp_all add: diagonal_def)
  have nz: "\<forall>i<nat (dimensions ?kf).
      elem (state_covariance ?kf) i i + elem (process_noise ?kf) i i +
      elem (measurement_noise ?kf) i i \<noteq> 0"
    using assms(1) by (simp add: elem_def)
  show ?thesis
    unfolding update_diagonal [OF wf len dP dQ nz]
    by (simp add: matrix_of_def elem_def)
qed

text \<open>
  Claim C4. The filter created with \<open>dimensions = 1\<close>, \<open>process_noise = 0.001\<close> and
  \<open>measurement_noise = 0.1\<close>, fed the measurement 1 five times, returns five estimates
  that increase strictly and stay strictly below 1.
\<close>

theorem constant_measurement_scenario:
  "(\<exists>kf. updates (KalmanFilter 1 (1 / 1000) (1 / 10)) [[1], [1], [1], [1], [1]] =
      Inr ([Some [1001 / 1101], Some [201301 / 211301], Some [30461501 / 31461501],
            Some [4110751701 / 4210751701], Some [521746081901 / 531746081901]], kf)) \<and>
   (1001 / 1101 :: real) < 201301 / 211301 \<and>
   (201301 / 211301 :: real) < 30461501 / 31461501 \<and>
   (30461501 / 31461501 :: real) < 4110751701 / 4210751701 \<and>
   (4110751701 / 4210751701 :: real) < 521746081901 / 531746081901 \<and>
   (521746081901 / 531746081901 :: real) < 1"
proof -
  have "updates (KalmanFilter 1 (1 / 1000) (1 / 10)) [[1], [1], [1], [1], [1]] =
      Inr ([Some [1001 / 1101], Some [201301 / 211301], Some [30461501 / 31461501],
            Some [4110751701 / 4210751701], Some [521746081901 / 531746081901]],
        \<lparr>dimensions = 1,
         state = \<lparr>rows = 1, cols = 1, data = [521746081901 / 531746081901]\<rparr>,
         process_noise = \<lparr>rows = 1, cols = 1, data = [1 / 1000]\<rparr>,
         measurement_noise = \<lparr>rows = 1, cols = 1, data = [1 / 10]\<rparr>,
         state_covariance = \<lparr>rows = 1, cols = 1, data = [110670911801 / 5317460819010]\<rparr>,
         transition_matrix = identity 1, measurement_matrix = identity 1,
         estimated_state = [521746081901 / 531746081901]\<rparr>)"
    by (simp add: KalmanFilter_scalar scalar_update)
  then have "\<exists>kf. updates (KalmanFilter 1 (1 / 1000) (1 / 10)) [[1], [1], [1], [1], [1]] =
      Inr ([Some [1001 / 1101], Some [201301 / 211301], Some [30461501 / 31461501],
            Some [4110751701 / 4210751701], Some [521746081901 / 531746081901]], kf)"
    by (rule exI)
  then show ?thesis by simp
qed

end
